theory Spec2Isabelle
  imports Main "HOL-Library.Word" "HOL-Library.Monad_Syntax" "HOL-Library.Multiset"
begin

unbundle bit_operations_syntax

section \<open>Data model of drivers/base/core.c\<close>

text \<open>
  A \<^verbatim>\<open>struct device *\<close> and a \<^verbatim>\<open>struct device_link *\<close> are addresses; both are
  natural numbers here.  A NULL pointer argument is \<open>None\<close>.
\<close>

type_synonym dev = nat
type_synonym lnk = nat

text \<open>
  The two enumerations and the link flags are declared in include/linux/device.h, which is
  not part of the sources at hand; their names are the ones core.c uses.
\<close>

datatype dl_dev_state =
  DL_DEV_NO_DRIVER | DL_DEV_PROBING | DL_DEV_DRIVER_BOUND | DL_DEV_UNBINDING

datatype device_link_state =
  DL_STATE_NONE | DL_STATE_DORMANT | DL_STATE_AVAILABLE | DL_STATE_CONSUMER_PROBE
  | DL_STATE_ACTIVE | DL_STATE_SUPPLIER_UNBIND

definition DL_FLAG_STATELESS :: "32 word" where "DL_FLAG_STATELESS = 1"
definition DL_FLAG_AUTOREMOVE :: "32 word" where "DL_FLAG_AUTOREMOVE = 2"
definition DL_FLAG_PM_RUNTIME :: "32 word" where "DL_FLAG_PM_RUNTIME = 4"
definition DL_FLAG_RPM_ACTIVE :: "32 word" where "DL_FLAG_RPM_ACTIVE = 8"

definition EINVAL :: int where "EINVAL = 22"
definition ENOMEM :: int where "ENOMEM = 12"
definition EPROBE_DEFER :: int where "EPROBE_DEFER = 517"

record device_link =
  addr :: lnk
  supplier :: dev
  consumer :: dev
  flags :: "32 word"
  status :: device_link_state
  rpm_active :: bool

text \<open>
  The fields of \<^verbatim>\<open>struct device\<close> that the modelled functions read or write.
  \<open>klist_children\<close> is \<^verbatim>\<open>dev->p\<close>: \<open>None\<close> while \<^verbatim>\<open>dev->p\<close> is NULL, and otherwise
  the klist \<^verbatim>\<open>dev->p->klist_children\<close> in list order.  \<open>kref\<close> is the reference count
  of the embedded kobject, moved by \<^verbatim>\<open>get_device\<close> and \<^verbatim>\<open>put_device\<close>.
\<close>

record device =
  parent :: "dev option"
  klist_children :: "dev list option"
  kref :: int
  links_status :: dl_dev_state
  init_name :: "string option"
  kobj_name :: "string option"

text \<open>
  The global state.  \<open>devices_kset\<close> is the list of \<^verbatim>\<open>devices_kset\<close> (the order of
  shutdown) and \<open>dpm_list\<close> the list of the power-management core (the order of suspend and
  resume); both are intrusive lists, so a device occurs in each at most once.

  Every link object is threaded on two intrusive lists, \<^verbatim>\<open>supplier->links.consumers\<close>
  (through \<^verbatim>\<open>s_node\<close>) and \<^verbatim>\<open>consumer->links.suppliers\<close> (through \<^verbatim>\<open>c_node\<close>).
  \<^verbatim>\<open>device_link_add\<close> appends a new link to the tail of both and \<^verbatim>\<open>__device_link_del\<close>
  unlinks it from both, and nothing else touches these lists.  So \<open>dlinks\<close> holds the live
  link objects in the order of their creation, and the two lists of a device are the
  sub-sequences of \<open>dlinks\<close> that name the device as supplier and as consumer.
\<close>

record kstate =
  devs :: "dev \<Rightarrow> device"
  dlinks :: "device_link list"
  next_link :: lnk
  devices_kset :: "dev list"
  dpm_list :: "dev list"

definition links_consumers :: "kstate \<Rightarrow> dev \<Rightarrow> device_link list" where
  "links_consumers s d = filter (\<lambda>link. supplier link = d) (dlinks s)"

definition links_suppliers :: "kstate \<Rightarrow> dev \<Rightarrow> device_link list" where
  "links_suppliers s d = filter (\<lambda>link. consumer link = d) (dlinks s)"

definition stateless :: "device_link \<Rightarrow> bool" where
  "stateless link = (flags link AND DL_FLAG_STATELESS \<noteq> 0)"

definition upd_dev :: "dev \<Rightarrow> (device \<Rightarrow> device) \<Rightarrow> kstate \<Rightarrow> kstate" where
  "upd_dev d f s = s\<lparr>devs := (devs s)(d := f (devs s d))\<rparr>"

definition get_device :: "dev option \<Rightarrow> kstate \<Rightarrow> kstate" where
  "get_device d s =
     (case d of None \<Rightarrow> s | Some x \<Rightarrow> upd_dev x (\<lambda>r. r\<lparr>kref := kref r + 1\<rparr>) s)"

definition put_device :: "dev option \<Rightarrow> kstate \<Rightarrow> kstate" where
  "put_device d s =
     (case d of None \<Rightarrow> s | Some x \<Rightarrow> upd_dev x (\<lambda>r. r\<lparr>kref := kref r - 1\<rparr>) s)"

text \<open>
  Modelled from the spec: \<^verbatim>\<open>device_is_registered\<close> (include/linux/device.h) and
  \<^verbatim>\<open>device_pm_initialized\<close> (drivers/base/power/power.h) are not under src/.  The spec has
  \<^verbatim>\<open>reorder_to_tail\<close> be a "no-op for Nodes not yet in the list" and \<^verbatim>\<open>add_link\<close> fail
  when the supplier is "not yet registered": each test is membership of the list it guards.
\<close>

definition device_is_registered :: "kstate \<Rightarrow> dev \<Rightarrow> bool" where
  "device_is_registered s d = (d \<in> set (devices_kset s))"

definition device_pm_initialized :: "kstate \<Rightarrow> dev \<Rightarrow> bool" where
  "device_pm_initialized s d = (d \<in> set (dpm_list s))"

text \<open>
  \<^verbatim>\<open>list_move_tail\<close>: unlink the entry and add it before the list head.
  \<^verbatim>\<open>devices_kset_move_last\<close> returns at once while \<^verbatim>\<open>devices_kset\<close> is NULL; the model starts
  after \<^verbatim>\<open>devices_init\<close>, which creates it.
\<close>

definition list_move_tail :: "dev \<Rightarrow> dev list \<Rightarrow> dev list" where
  "list_move_tail d xs = removeAll d xs @ [d]"

definition devices_kset_move_last :: "dev \<Rightarrow> kstate \<Rightarrow> kstate" where
  "devices_kset_move_last d s = s\<lparr>devices_kset := list_move_tail d (devices_kset s)\<rparr>"

text \<open>
  Modelled from the spec: \<^verbatim>\<open>device_pm_move_last\<close> (drivers/base/power/main.c) is not under
  src/; it moves the device "to the tail of the Ordering List", here \<open>dpm_list\<close>.
\<close>

definition device_pm_move_last :: "dev \<Rightarrow> kstate \<Rightarrow> kstate" where
  "device_pm_move_last d s = s\<lparr>dpm_list := list_move_tail d (dpm_list s)\<rparr>"

section \<open>Dependency check and reordering\<close>

text \<open>
  \<^verbatim>\<open>device_for_each_child\<close>: returns 0 when \<^verbatim>\<open>parent->p\<close> is NULL, and otherwise runs
  \<^verbatim>\<open>while ((child = next_device(&i)) && !error) error = fn(child, data);\<close>.
  The callbacks recurse with no bound of their own, so they are partial: \<open>None\<close> is a
  recursion that never returns.
\<close>

fun child_loop :: "(dev \<Rightarrow> int option) \<Rightarrow> dev list \<Rightarrow> int \<Rightarrow> int option" where
  "child_loop fn [] error = Some error"
| "child_loop fn (child # rest) error =
     (if error \<noteq> 0 then Some error else do { e \<leftarrow> fn child; child_loop fn rest e })"

definition device_for_each_child :: "kstate \<Rightarrow> dev \<Rightarrow> (dev \<Rightarrow> int option) \<Rightarrow> int option" where
  "device_for_each_child s par fn =
     (case klist_children (devs s par) of None \<Rightarrow> Some 0 | Some cs \<Rightarrow> child_loop fn cs 0)"

text \<open>
  The \<^verbatim>\<open>list_for_each_entry\<close> loop of \<^verbatim>\<open>device_is_dependent\<close> over
  \<^verbatim>\<open>dev->links.consumers\<close>, entered with \<open>ret = 0\<close>.
\<close>

fun dep_loop :: "(dev \<Rightarrow> int option) \<Rightarrow> dev \<Rightarrow> device_link list \<Rightarrow> int \<Rightarrow> int option" where
  "dep_loop fn target [] ret = Some ret"
| "dep_loop fn target (link # rest) ret =
     (if consumer link = target then Some 1
      else do { r \<leftarrow> fn (consumer link);
                if r \<noteq> 0 then Some r else dep_loop fn target rest r })"

lemma child_loop_mono [partial_function_mono]:
  assumes "\<And>c. mono_option (\<lambda>f. B f c)"
  shows "mono_option (\<lambda>f. child_loop (B f) cs e)"
  using assms by (induction cs arbitrary: e) (auto intro!: partial_function_mono)

lemma device_for_each_child_mono [partial_function_mono]:
  assumes "\<And>c. mono_option (\<lambda>f. B f c)"
  shows "mono_option (\<lambda>f. device_for_each_child s d (B f))"
  unfolding device_for_each_child_def using assms
  by (cases "klist_children (devs s d)") (auto intro!: partial_function_mono)

lemma dep_loop_mono [partial_function_mono]:
  assumes "\<And>c. mono_option (\<lambda>f. B f c)"
  shows "mono_option (\<lambda>f. dep_loop (B f) t ls r)"
  using assms by (induction ls arbitrary: r) (auto intro!: partial_function_mono)

partial_function (option) device_is_dependent :: "kstate \<Rightarrow> dev \<Rightarrow> dev \<Rightarrow> int option" where
  "device_is_dependent s dev target =
     (if dev = target then Some 1
      else do {
        ret \<leftarrow> device_for_each_child s dev (\<lambda>child. device_is_dependent s child target);
        if ret \<noteq> 0 then Some ret
        else dep_loop (\<lambda>c. device_is_dependent s c target) target (links_consumers s dev) ret
      })"

text \<open>
  \<^verbatim>\<open>device_reorder_to_tail\<close> always returns 0, so neither of its two loops is ever cut
  short; \<open>reorder_loop\<close> is both of them, over the children and over the consumers of the
  links.  The callee changes the two ordering lists only, so the list a loop walks is the
  one read when the loop starts.
\<close>

fun reorder_loop :: "(kstate \<Rightarrow> dev \<Rightarrow> kstate option) \<Rightarrow> dev list \<Rightarrow> kstate \<Rightarrow> kstate option" where
  "reorder_loop fn [] s = Some s"
| "reorder_loop fn (d # ds) s = do { s' \<leftarrow> fn s d; reorder_loop fn ds s' }"

lemma reorder_loop_mono [partial_function_mono]:
  assumes "\<And>s c. mono_option (\<lambda>f. B f s c)"
  shows "mono_option (\<lambda>f. reorder_loop (B f) cs s)"
  using assms by (induction cs arbitrary: s) (auto intro!: partial_function_mono)

partial_function (option) device_reorder_to_tail :: "kstate \<Rightarrow> dev \<Rightarrow> kstate option" where
  "device_reorder_to_tail s dev =
     (let s1 = (if device_is_registered s dev then devices_kset_move_last dev s else s);
          s2 = (if device_pm_initialized s1 dev then device_pm_move_last dev s1 else s1)
      in do {
        s3 \<leftarrow> (case klist_children (devs s2 dev) of
                 None \<Rightarrow> Some s2
               | Some cs \<Rightarrow> reorder_loop (\<lambda>st c. device_reorder_to_tail st c) cs s2);
        reorder_loop (\<lambda>st c. device_reorder_to_tail st c)
          (map consumer (links_consumers s3 dev)) s3
      })"

section \<open>Creating a link\<close>

text \<open>
  What \<^verbatim>\<open>device_link_add\<close> asks of code outside core.c: whether \<^verbatim>\<open>kzalloc\<close> returns
  an object, and the value of \<^verbatim>\<open>pm_runtime_get_sync(supplier)\<close>.  The other runtime-PM calls
  (\<^verbatim>\<open>pm_runtime_new_link\<close>, \<^verbatim>\<open>pm_runtime_get_noresume\<close>, \<^verbatim>\<open>pm_runtime_resume\<close>,
  \<^verbatim>\<open>pm_runtime_put_noidle\<close>) move runtime-PM counters only, which are not part of \<open>kstate\<close>.
\<close>

record link_env =
  kzalloc_ok :: bool
  pm_runtime_get_sync_ret :: int

text \<open>
  \<^verbatim>\<open>device_link_add\<close> returns NULL on every failure.  The model names the branch that
  returned it; \<open>Inr a\<close> is the address of the link returned.
\<close>

datatype link_error =
  NullDevice | InvalidFlags | SupplierNotReady | DependencyCycle
  | AllocationFailure | RuntimePMFailure

text \<open>The block "Determine the initial link state" of \<^verbatim>\<open>device_link_add\<close>.\<close>

definition initial_link_status ::
  "32 word \<Rightarrow> dl_dev_state \<Rightarrow> dl_dev_state \<Rightarrow> device_link_state" where
  "initial_link_status fl supplier_status consumer_status =
     (if fl AND DL_FLAG_STATELESS \<noteq> 0 then DL_STATE_NONE
      else (case supplier_status of
              DL_DEV_DRIVER_BOUND \<Rightarrow>
                (case consumer_status of
                   DL_DEV_PROBING \<Rightarrow> DL_STATE_CONSUMER_PROBE
                 | DL_DEV_DRIVER_BOUND \<Rightarrow> DL_STATE_ACTIVE
                 | _ \<Rightarrow> DL_STATE_AVAILABLE)
            | DL_DEV_UNBINDING \<Rightarrow> DL_STATE_SUPPLIER_UNBIND
            | _ \<Rightarrow> DL_STATE_DORMANT))"

definition new_link :: "dev \<Rightarrow> dev \<Rightarrow> 32 word \<Rightarrow> kstate \<Rightarrow> device_link" where
  "new_link c sp fl s =
     \<lparr> addr = next_link s, supplier = sp, consumer = c, flags = fl,
       status = initial_link_status fl (links_status (devs s sp)) (links_status (devs s c)),
       rpm_active = (fl AND DL_FLAG_PM_RUNTIME \<noteq> 0 \<and> fl AND DL_FLAG_RPM_ACTIVE \<noteq> 0) \<rparr>"

definition device_link_add ::
  "link_env \<Rightarrow> dev option \<Rightarrow> dev option \<Rightarrow> 32 word \<Rightarrow> kstate
     \<Rightarrow> ((link_error + lnk) \<times> kstate) option" where
  "device_link_add env consumer_arg supplier_arg fl s =
     (case (consumer_arg, supplier_arg) of
        (Some c, Some sp) \<Rightarrow>
          if fl AND DL_FLAG_STATELESS \<noteq> 0 \<and> fl AND DL_FLAG_AUTOREMOVE \<noteq> 0
          then Some (Inl InvalidFlags, s)
          else if \<not> device_pm_initialized s sp then Some (Inl SupplierNotReady, s)
          else do {
            dep \<leftarrow> device_is_dependent s c sp;
            if dep \<noteq> 0 then Some (Inl DependencyCycle, s)
            else (case find (\<lambda>link. consumer link = c) (links_consumers s sp) of
                    Some link \<Rightarrow> Some (Inr (addr link), s)
                  | None \<Rightarrow>
                      if \<not> kzalloc_ok env then Some (Inl AllocationFailure, s)
                      else if fl AND DL_FLAG_PM_RUNTIME \<noteq> 0 \<and> fl AND DL_FLAG_RPM_ACTIVE \<noteq> 0
                              \<and> pm_runtime_get_sync_ret env < 0
                      then Some (Inl RuntimePMFailure, s)
                      else do {
                        let link = new_link c sp fl s;
                        let s1 = get_device (Some c) (get_device (Some sp) s);
                        s2 \<leftarrow> device_reorder_to_tail s1 c;
                        Some (Inr (addr link),
                              s2\<lparr>dlinks := dlinks s2 @ [link], next_link := Suc (next_link s2)\<rparr>)
                      })
          }
      | _ \<Rightarrow> Some (Inl NullDevice, s))"

section \<open>The link state machine\<close>

text \<open>
  A loop over one of the two link lists of a device visits the elements of \<open>dlinks\<close> that
  are on that list, in order, and may write the \<open>status\<close> of the element it is at.  A loop
  with no \<^verbatim>\<open>break\<close> is a \<open>map\<close> over \<open>dlinks\<close> that leaves the other elements as they are.
\<close>

definition device_links_missing_supplier :: "dev \<Rightarrow> device_link list \<Rightarrow> device_link list" where
  "device_links_missing_supplier d ls =
     map (\<lambda>link. if consumer link = d \<and> status link = DL_STATE_CONSUMER_PROBE
                  then link\<lparr>status := DL_STATE_AVAILABLE\<rparr> else link) ls"

text \<open>
  The loop of \<^verbatim>\<open>device_links_check_suppliers\<close>: \<open>seen\<close> are the link objects already
  passed (with the values written to them), the third argument the ones still ahead.
  The result is the new contents of the link objects and \<open>ret\<close>.
\<close>

fun check_suppliers_loop ::
  "dev \<Rightarrow> device_link list \<Rightarrow> device_link list \<Rightarrow> device_link list \<times> int" where
  "check_suppliers_loop d seen [] = (seen, 0)"
| "check_suppliers_loop d seen (link # rest) =
     (if consumer link \<noteq> d then check_suppliers_loop d (seen @ [link]) rest
      else if flags link AND DL_FLAG_STATELESS \<noteq> 0
      then check_suppliers_loop d (seen @ [link]) rest
      else if status link \<noteq> DL_STATE_AVAILABLE
      then (device_links_missing_supplier d (seen @ link # rest), - EPROBE_DEFER)
      else check_suppliers_loop d (seen @ [link\<lparr>status := DL_STATE_CONSUMER_PROBE\<rparr>]) rest)"

definition device_links_check_suppliers :: "dev \<Rightarrow> kstate \<Rightarrow> int \<times> kstate" where
  "device_links_check_suppliers d s =
     (let (ls, ret) = check_suppliers_loop d [] (dlinks s);
          s1 = s\<lparr>dlinks := ls\<rparr>
      in (ret, upd_dev d (\<lambda>r. r\<lparr>links_status := DL_DEV_PROBING\<rparr>) s1))"

definition device_links_driver_bound :: "dev \<Rightarrow> kstate \<Rightarrow> kstate" where
  "device_links_driver_bound d s =
     (let s1 = s\<lparr>dlinks := map (\<lambda>link.
                   if supplier link = d \<and> \<not> (flags link AND DL_FLAG_STATELESS \<noteq> 0)
                   then link\<lparr>status := DL_STATE_AVAILABLE\<rparr> else link) (dlinks s)\<rparr>;
          s2 = s1\<lparr>dlinks := map (\<lambda>link.
                   if consumer link = d \<and> \<not> (flags link AND DL_FLAG_STATELESS \<noteq> 0)
                   then link\<lparr>status := DL_STATE_ACTIVE\<rparr> else link) (dlinks s1)\<rparr>
      in upd_dev d (\<lambda>r. r\<lparr>links_status := DL_DEV_DRIVER_BOUND\<rparr>) s2)"

section \<open>Registration\<close>

text \<open>
  Modelled from the spec: \<^verbatim>\<open>kobject_add\<close> and \<^verbatim>\<open>kobject_del\<close> (lib/kobject.c) and
  \<^verbatim>\<open>device_pm_add\<close> and \<^verbatim>\<open>device_pm_remove\<close> (drivers/base/power/main.c) are not under
  src/.  For the spec, registration appends the node "to the end of the global Ordering List"
  and teardown removes it from that list; \<^verbatim>\<open>kobject_add\<close> does so on the list of
  \<^verbatim>\<open>devices_kset\<close> (\<^verbatim>\<open>device_initialize\<close> sets \<^verbatim>\<open>dev->kobj.kset\<close>) and
  \<^verbatim>\<open>device_pm_add\<close> on \<open>dpm_list\<close>.
\<close>

definition kobject_add :: "dev \<Rightarrow> kstate \<Rightarrow> kstate" where
  "kobject_add d s = s\<lparr>devices_kset := devices_kset s @ [d]\<rparr>"

definition kobject_del :: "dev \<Rightarrow> kstate \<Rightarrow> kstate" where
  "kobject_del d s = s\<lparr>devices_kset := removeAll d (devices_kset s)\<rparr>"

definition device_pm_add :: "dev \<Rightarrow> kstate \<Rightarrow> kstate" where
  "device_pm_add d s = s\<lparr>dpm_list := dpm_list s @ [d]\<rparr>"

definition device_pm_remove :: "dev \<Rightarrow> kstate \<Rightarrow> kstate" where
  "device_pm_remove d s = s\<lparr>dpm_list := removeAll d (dpm_list s)\<rparr>"

text \<open>
  \<^verbatim>\<open>device_initialize\<close>: \<^verbatim>\<open>kobject_init\<close> sets the reference count to one, the two link
  lists are emptied (no element of \<open>dlinks\<close> names a device that is being initialised) and
  \<^verbatim>\<open>links.status\<close> is \<^verbatim>\<open>DL_DEV_NO_DRIVER\<close>.  \<open>zeroed_device\<close> is the all-zero structure
  the function asks its caller for.
\<close>

definition zeroed_device :: device where
  "zeroed_device = \<lparr> parent = None, klist_children = None, kref = 0,
                      links_status = DL_DEV_NO_DRIVER, init_name = None, kobj_name = None \<rparr>"

definition device_initialize :: "dev \<Rightarrow> kstate \<Rightarrow> kstate" where
  "device_initialize d s = upd_dev d (\<lambda>r. r\<lparr>kref := 1, links_status := DL_DEV_NO_DRIVER\<rparr>) s"

text \<open>
  The results of the calls \<^verbatim>\<open>device_add\<close> makes outside core.c's graph: 0 or a negative
  error code each.  \<open>bus_dev_name\<close> is the name \<^verbatim>\<open>"%s%u"\<close> made of \<^verbatim>\<open>dev->bus->dev_name\<close> and
  \<^verbatim>\<open>dev->id\<close> when the bus has one, and \<open>major_devt\<close> is \<^verbatim>\<open>MAJOR(dev->devt) != 0\<close>.
\<close>

record add_env =
  private_init_ok :: bool
  bus_dev_name :: "string option"
  get_device_parent_err :: int
  kobject_add_ret :: int
  uevent_file_ret :: int
  class_symlinks_ret :: int
  add_attrs_ret :: int
  bus_add_device_ret :: int
  dpm_sysfs_add_ret :: int
  major_devt :: bool
  dev_file_ret :: int
  sys_dev_entry_ret :: int

text \<open>
  The labels of \<^verbatim>\<open>device_add\<close>, last first; each falls through to the next.
  \<^verbatim>\<open>SymlinkError\<close>, \<^verbatim>\<open>AttrsError\<close>, \<^verbatim>\<open>BusError\<close> and \<^verbatim>\<open>DPMError\<close> undo sysfs and bus
  work only and then reach \<^verbatim>\<open>attrError\<close>; \<^verbatim>\<open>SysEntryError\<close> removes a file and reaches
  \<^verbatim>\<open>DevAttrError\<close>.
\<close>

definition add_done :: "dev \<Rightarrow> int \<Rightarrow> kstate \<Rightarrow> int \<times> kstate" where
  "add_done d error s = (error, put_device (Some d) s)"

definition add_name_error :: "dev \<Rightarrow> int \<Rightarrow> kstate \<Rightarrow> int \<times> kstate" where
  "add_name_error d error s = add_done d error (upd_dev d (\<lambda>r. r\<lparr>klist_children := None\<rparr>) s)"

definition add_parent_error :: "dev \<Rightarrow> dev option \<Rightarrow> int \<Rightarrow> kstate \<Rightarrow> int \<times> kstate" where
  "add_parent_error d par error s = add_name_error d error (put_device par s)"

definition add_attrError :: "dev \<Rightarrow> dev option \<Rightarrow> int \<Rightarrow> kstate \<Rightarrow> int \<times> kstate" where
  "add_attrError d par error s = add_parent_error d par error (kobject_del d s)"

definition add_DevAttrError :: "dev \<Rightarrow> dev option \<Rightarrow> int \<Rightarrow> kstate \<Rightarrow> int \<times> kstate" where
  "add_DevAttrError d par error s = add_attrError d par error (device_pm_remove d s)"

text \<open>
  \<^verbatim>\<open>klist_add_tail(&dev->p->knode_parent, &parent->p->klist_children)\<close>: the klist takes
  a reference to the device it stores (\<^verbatim>\<open>klist_children_get\<close>).  \<^verbatim>\<open>parent->p\<close> is
  dereferenced: \<open>None\<close> is the NULL pointer dereference.
\<close>

definition klist_add_tail_parent :: "dev \<Rightarrow> dev \<Rightarrow> kstate \<Rightarrow> kstate option" where
  "klist_add_tail_parent d q s =
     (case klist_children (devs s q) of
        None \<Rightarrow> None
      | Some cs \<Rightarrow>
          Some (get_device (Some d) (upd_dev q (\<lambda>r. r\<lparr>klist_children := Some (cs @ [d])\<rparr>) s)))"

definition device_add :: "add_env \<Rightarrow> dev option \<Rightarrow> kstate \<Rightarrow> (int \<times> kstate) option" where
  "device_add env dev_arg s0 =
     (case dev_arg of
        None \<Rightarrow> Some (- EINVAL, s0)
      | Some d \<Rightarrow>
          let s1 = get_device (Some d) s0 in
          if klist_children (devs s1 d) = None \<and> \<not> private_init_ok env
          then Some (add_done d (- ENOMEM) s1)
          else
            let s2 = (if klist_children (devs s1 d) = None
                      then upd_dev d (\<lambda>r. r\<lparr>klist_children := Some []\<rparr>) s1 else s1);
                s3 = (case init_name (devs s2 d) of
                        Some n \<Rightarrow> upd_dev d (\<lambda>r. r\<lparr>kobj_name := Some n, init_name := None\<rparr>) s2
                      | None \<Rightarrow> s2);
                s4 = (if kobj_name (devs s3 d) = None \<and> bus_dev_name env \<noteq> None
                      then upd_dev d (\<lambda>r. r\<lparr>kobj_name := bus_dev_name env\<rparr>) s3 else s3)
            in
            if kobj_name (devs s4 d) = None then Some (add_name_error d (- EINVAL) s4)
            else
              let par = parent (devs s4 d);
                  s5 = get_device par s4
              in
              if get_device_parent_err env \<noteq> 0
              then Some (add_parent_error d par (get_device_parent_err env) s5)
              else if kobject_add_ret env \<noteq> 0
              then Some (add_parent_error d par (kobject_add_ret env) s5)
              else
                let s6 = kobject_add d s5 in
                if uevent_file_ret env \<noteq> 0
                then Some (add_attrError d par (uevent_file_ret env) s6)
                else if class_symlinks_ret env \<noteq> 0
                then Some (add_attrError d par (class_symlinks_ret env) s6)
                else if add_attrs_ret env \<noteq> 0
                then Some (add_attrError d par (add_attrs_ret env) s6)
                else if bus_add_device_ret env \<noteq> 0
                then Some (add_attrError d par (bus_add_device_ret env) s6)
                else if dpm_sysfs_add_ret env \<noteq> 0
                then Some (add_attrError d par (dpm_sysfs_add_ret env) s6)
                else
                  let s7 = device_pm_add d s6 in
                  if major_devt env \<and> dev_file_ret env \<noteq> 0
                  then Some (add_DevAttrError d par (dev_file_ret env) s7)
                  else if major_devt env \<and> sys_dev_entry_ret env \<noteq> 0
                  then Some (add_DevAttrError d par (sys_dev_entry_ret env) s7)
                  else (case par of
                          None \<Rightarrow> Some (add_done d 0 s7)
                        | Some q \<Rightarrow>
                            (case klist_add_tail_parent d q s7 of
                               None \<Rightarrow> None
                             | Some s8 \<Rightarrow> Some (add_done d 0 s8))))"

section \<open>Teardown\<close>

text \<open>
  \<^verbatim>\<open>__device_link_del\<close> unlinks the object from both lists and hands it to
  \<^verbatim>\<open>device_link_free\<close>, which puts both devices (under \<^verbatim>\<open>CONFIG_SRCU\<close> after the grace
  period, which a sequential model does not separate from the call).
\<close>

definition device_link_free :: "device_link \<Rightarrow> kstate \<Rightarrow> kstate" where
  "device_link_free link s =
     put_device (Some (supplier link)) (put_device (Some (consumer link)) s)"

definition device_link_del_locked :: "device_link \<Rightarrow> kstate \<Rightarrow> kstate" where
  "device_link_del_locked link s = device_link_free link (s\<lparr>dlinks := remove1 link (dlinks s)\<rparr>)"

definition device_links_purge :: "dev \<Rightarrow> kstate \<Rightarrow> kstate" where
  "device_links_purge d s =
     (let s1 = fold device_link_del_locked (rev (links_suppliers s d)) s
      in fold device_link_del_locked (rev (links_consumers s1 d)) s1)"

text \<open>
  \<^verbatim>\<open>klist_del(&dev->p->knode_parent)\<close>: the node leaves the klist it is on, the children
  of the parent, and the klist puts the device (\<^verbatim>\<open>klist_children_put\<close>).
\<close>

definition klist_del_parent :: "dev \<Rightarrow> dev \<Rightarrow> kstate \<Rightarrow> kstate" where
  "klist_del_parent d q s =
     put_device (Some d)
       (upd_dev q (\<lambda>r. r\<lparr>klist_children := map_option (removeAll d) (klist_children r)\<rparr>) s)"

text \<open>
  \<^verbatim>\<open>device_del\<close>, as the list of the states it passes through: after the node has left
  the children of its parent, after \<^verbatim>\<open>device_pm_remove\<close>, after \<^verbatim>\<open>device_links_purge\<close>,
  after \<^verbatim>\<open>kobject_del\<close> and after \<^verbatim>\<open>put_device(parent)\<close>.  The calls in between work on
  sysfs, the bus, the class and user space.  \<^verbatim>\<open>device_del\<close> leaves the last of these states.
  With a parent, \<^verbatim>\<open>dev->p\<close> is dereferenced: \<open>None\<close> is the NULL pointer dereference.
\<close>

definition device_del_trace :: "dev \<Rightarrow> kstate \<Rightarrow> kstate list option" where
  "device_del_trace d s =
     (let par = parent (devs s d) in
      if par \<noteq> None \<and> klist_children (devs s d) = None then None
      else
        let s1 = (case par of None \<Rightarrow> s | Some q \<Rightarrow> klist_del_parent d q s);
            s2 = device_pm_remove d s1;
            s3 = device_links_purge d s2;
            s4 = kobject_del d s3;
            s5 = put_device par s4
        in Some [s1, s2, s3, s4, s5])"

definition device_del :: "dev \<Rightarrow> kstate \<Rightarrow> kstate option" where
  "device_del d s = map_option last (device_del_trace d s)"

section \<open>Sequences of operations\<close>

text \<open>
  Every device starts out as \<^verbatim>\<open>device_initialize\<close> leaves a zeroed structure, and there is
  no link.
\<close>

definition boot_state :: kstate where
  "boot_state =
     \<lparr> devs = (\<lambda>_. zeroed_device\<lparr>kref := 1, links_status := DL_DEV_NO_DRIVER\<rparr>),
       dlinks = [], next_link = 0, devices_kset = [], dpm_list = [] \<rparr>"

text \<open>
  \<open>Register env d par nm\<close> is the caller that sets \<^verbatim>\<open>dev->parent\<close> and \<^verbatim>\<open>dev->init_name\<close> and
  calls \<^verbatim>\<open>device_add\<close>; \<open>AddLink env c sp fl\<close> is a call of \<^verbatim>\<open>device_link_add\<close>.
  \<open>step\<close> is \<open>None\<close> unless the call succeeds.  A registration is made under the contract of
  \<^verbatim>\<open>device_add\<close>: the device has not been added before ("Do not call this routine or
  device_register() more than once for any device structure"), and its parent, if it has
  one, is a device that has been added, since \<^verbatim>\<open>kobject_add\<close> places the device below its
  parent.
\<close>

datatype op =
  Register add_env dev "dev option" "string option"
  | AddLink link_env dev dev "32 word"

fun step :: "op \<Rightarrow> kstate \<Rightarrow> kstate option" where
  "step (Register env d par nm) s =
     (if d \<in> set (devices_kset s) \<or> d \<in> set (dpm_list s) then None
      else if (case par of None \<Rightarrow> False | Some q \<Rightarrow> q \<notin> set (devices_kset s)) then None
      else (case device_add env (Some d) (upd_dev d (\<lambda>r. r\<lparr>parent := par, init_name := nm\<rparr>) s) of
              None \<Rightarrow> None
            | Some (error, s') \<Rightarrow> if error = 0 then Some s' else None))"
| "step (AddLink env c sp fl) s =
     (case device_link_add env (Some c) (Some sp) fl s of
        Some (Inr a, s') \<Rightarrow> Some s'
      | _ \<Rightarrow> None)"

fun run :: "op list \<Rightarrow> kstate \<Rightarrow> kstate option" where
  "run [] s = Some s"
| "run (x # xs) s = (case step x s of None \<Rightarrow> None | Some s' \<Rightarrow> run xs s')"

section \<open>Order and dependency\<close>

text \<open>\<open>precedes xs a b\<close>: \<open>b\<close> stands in \<open>xs\<close> behind \<open>a\<close>.\<close>

fun precedes :: "'a list \<Rightarrow> 'a \<Rightarrow> 'a \<Rightarrow> bool" where
  "precedes [] a b = False"
| "precedes (x # xs) a b = (if x = a then b \<in> set xs else precedes xs a b)"

text \<open>
  An ordering list \<open>xs\<close> respects the graph of \<open>s\<close>: the supplier of a link precedes its
  consumer once the consumer is on the list (\<^verbatim>\<open>device_link_add\<close> takes a consumer that
  is not registered yet), and a device precedes each of its children.
\<close>

definition links_ordered :: "dev list \<Rightarrow> kstate \<Rightarrow> bool" where
  "links_ordered xs s =
     (\<forall>link \<in> set (dlinks s).
        consumer link \<in> set xs \<longrightarrow> precedes xs (supplier link) (consumer link))"

definition children_ordered :: "dev list \<Rightarrow> kstate \<Rightarrow> bool" where
  "children_ordered xs s =
     (\<forall>d cs. klist_children (devs s d) = Some cs \<longrightarrow> (\<forall>c \<in> set cs. precedes xs d c))"

text \<open>
  \<open>(a, b) \<in> depends_on s\<close>: \<open>a\<close> is the consumer of a link with supplier \<open>b\<close>, or \<open>a\<close> is a
  child of \<open>b\<close>.
\<close>

definition depends_on :: "kstate \<Rightarrow> (dev \<times> dev) set" where
  "depends_on s =
     {(a, b). (\<exists>link \<in> set (dlinks s). consumer link = a \<and> supplier link = b)
              \<or> (\<exists>cs. klist_children (devs s b) = Some cs \<and> a \<in> set cs)}"

text \<open>What holds of every state that registrations and link additions lead to.\<close>

definition graph_inv :: "kstate \<Rightarrow> bool" where
  "graph_inv s =
     (devices_kset s = dpm_list s \<and> distinct (dpm_list s)
      \<and> (\<forall>d. klist_children (devs s d) \<noteq> None \<longrightarrow> d \<in> set (dpm_list s))
      \<and> (\<forall>link \<in> set (dlinks s). supplier link \<in> set (dpm_list s))
      \<and> links_ordered (dpm_list s) s \<and> children_ordered (dpm_list s) s
      \<and> (\<forall>link \<in> set (dlinks s). addr link < next_link s)
      \<and> distinct (map (\<lambda>link. (consumer link, supplier link)) (dlinks s)))"

section \<open>Examples and the words of the specification\<close>

text \<open>
  The initial state of a link in the words of the specification: a STATELESS link is in
  NONE; otherwise supplier DRIVER_BOUND and consumer PROBING give CONSUMER_PROBE, supplier
  DRIVER_BOUND and consumer DRIVER_BOUND give ACTIVE, supplier DRIVER_BOUND and any other
  consumer give AVAILABLE, supplier UNBINDING gives SUPPLIER_UNBIND, and anything else
  DORMANT.
\<close>

definition spec_initial_state :: "32 word \<Rightarrow> dl_dev_state \<Rightarrow> dl_dev_state \<Rightarrow> device_link_state" where
  "spec_initial_state fl sst cst =
     (if fl AND DL_FLAG_STATELESS \<noteq> 0 then DL_STATE_NONE
      else if sst = DL_DEV_DRIVER_BOUND \<and> cst = DL_DEV_PROBING then DL_STATE_CONSUMER_PROBE
      else if sst = DL_DEV_DRIVER_BOUND \<and> cst = DL_DEV_DRIVER_BOUND then DL_STATE_ACTIVE
      else if sst = DL_DEV_DRIVER_BOUND then DL_STATE_AVAILABLE
      else if sst = DL_DEV_UNBINDING then DL_STATE_SUPPLIER_UNBIND
      else DL_STATE_DORMANT)"

text \<open>External calls that all succeed, and a device without a device number.\<close>

definition env_ok :: add_env where
  "env_ok = \<lparr> private_init_ok = True, bus_dev_name = None, get_device_parent_err = 0,
               kobject_add_ret = 0, uevent_file_ret = 0, class_symlinks_ret = 0,
               add_attrs_ret = 0, bus_add_device_ret = 0, dpm_sysfs_add_ret = 0,
               major_devt = False, dev_file_ret = 0, sys_dev_entry_ret = 0 \<rparr>"

definition lenv_ok :: link_env where
  "lenv_ok = \<lparr> kzalloc_ok = True, pm_runtime_get_sync_ret = 0 \<rparr>"

text \<open>
  Devices 10, 11 and 12 registered in this order, 11 as a child of 10, and one link with
  supplier 11 and consumer 12 in the state \<open>st\<close>.  With \<open>DL_STATE_DORMANT\<close> it is the state
  that the three registrations and the addition of the link lead to (\<open>ex_state_reachable\<close>).
\<close>

definition ex_state :: "device_link_state \<Rightarrow> kstate" where
  "ex_state st =
     \<lparr> devs = (devs boot_state)
         (10 := (devs boot_state 10)\<lparr>klist_children := Some [11], kref := 2,
                                      kobj_name := Some ''a''\<rparr>,
          11 := (devs boot_state 11)\<lparr>parent := Some 10, klist_children := Some [], kref := 3,
                                      kobj_name := Some ''b''\<rparr>,
          12 := (devs boot_state 12)\<lparr>klist_children := Some [], kref := 2,
                                      kobj_name := Some ''c''\<rparr>),
       dlinks = [\<lparr> addr = 0, supplier = 11, consumer = 12, flags = 0, status = st,
                   rpm_active = False \<rparr>],
       next_link = 1, devices_kset = [10, 11, 12], dpm_list = [10, 11, 12] \<rparr>"

text \<open>
  \<open>unwound d s s'\<close>: against \<open>s\<close>, the state \<open>s'\<close> has the same ordering lists, links and
  reference counts and the same children of every other device, and \<^verbatim>\<open>d->p\<close> is NULL.
  \<open>res_ok\<close> asks this of a result of \<^verbatim>\<open>device_add\<close> that is an error.
\<close>

definition unwound :: "dev \<Rightarrow> kstate \<Rightarrow> kstate \<Rightarrow> bool" where
  "unwound d s s' =
     (devices_kset s' = devices_kset s \<and> dpm_list s' = dpm_list s \<and> dlinks s' = dlinks s
      \<and> (\<forall>x. kref (devs s' x) = kref (devs s x))
      \<and> (\<forall>x. x \<noteq> d \<longrightarrow> klist_children (devs s' x) = klist_children (devs s x))
      \<and> klist_children (devs s' d) = None)"

definition res_ok :: "dev \<Rightarrow> kstate \<Rightarrow> (int \<times> kstate) option \<Rightarrow> bool" where
  "res_ok d s r = (case r of None \<Rightarrow> True | Some x \<Rightarrow> fst x \<noteq> 0 \<longrightarrow> unwound d s (snd x))"

text \<open>
  The order of the specification on a trace of \<^verbatim>\<open>device_del\<close>, with both lists of the code
  for its one Ordering List: the links are purged before the node leaves the Ordering List,
  so a state in which a link of the node remains has the node on both lists.
\<close>

definition purge_precedes_removal :: "dev \<Rightarrow> kstate list \<Rightarrow> bool" where
  "purge_precedes_removal d tr =
     (\<forall>t \<in> set tr. (\<exists>link \<in> set (dlinks t). consumer link = d \<or> supplier link = d)
                      \<longrightarrow> d \<in> set (devices_kset t) \<and> d \<in> set (dpm_list t))"

text \<open>
  \<open>rank xs a\<close> is the position of \<open>a\<close> in \<open>xs\<close>, or the length of \<open>xs\<close> for a device that is
  not on it.
\<close>

definition rank :: "dev list \<Rightarrow> dev \<Rightarrow> nat" where
  "rank xs a = length (takeWhile (\<lambda>x. x \<noteq> a) xs)"

text \<open>
  \<open>with_lists s xs\<close> has \<open>xs\<close> for both ordering lists.  \<open>tail_moved D S xs ys\<close> is what
  \<^verbatim>\<open>device_reorder_to_tail\<close> makes of a list \<open>xs\<close> when started on the devices \<open>S\<close> in the
  dependency relation \<open>D\<close>: the same devices are on \<open>ys\<close>, a device that depends on none of
  \<open>S\<close> precedes what it preceded and precedes every device that depends on one of \<open>S\<close>, and
  a device that depends on one of \<open>S\<close> precedes its own dependents.
\<close>

definition with_lists :: "kstate \<Rightarrow> dev list \<Rightarrow> kstate" where
  "with_lists s xs = s\<lparr>devices_kset := xs, dpm_list := xs\<rparr>"

definition tail_moved :: "(dev \<times> dev) set \<Rightarrow> dev set \<Rightarrow> dev list \<Rightarrow> dev list \<Rightarrow> bool" where
  "tail_moved D S xs ys =
     (set ys = set xs \<and> distinct ys
      \<and> (\<forall>a b. (\<forall>c \<in> S. (a, c) \<notin> D\<^sup>*) \<longrightarrow> precedes xs a b \<longrightarrow> precedes ys a b)
      \<and> (\<forall>a b. (\<forall>c \<in> S. (a, c) \<notin> D\<^sup>*) \<longrightarrow> a \<in> set xs \<longrightarrow> (\<exists>c \<in> S. (b, c) \<in> D\<^sup>*)
                \<longrightarrow> b \<in> set xs \<longrightarrow> precedes ys a b)
      \<and> (\<forall>a b. (b, a) \<in> D \<longrightarrow> (\<exists>c \<in> S. (a, c) \<in> D\<^sup>*) \<longrightarrow> a \<in> set xs \<longrightarrow> b \<in> set xs
                \<longrightarrow> precedes ys a b))"

text \<open>
  The three parts of \<^verbatim>\<open>device_add\<close> behind the check of the name: from
  \<^verbatim>\<open>get_device_parent\<close> to \<^verbatim>\<open>kobject_add\<close>, from there to \<^verbatim>\<open>device_pm_add\<close>, and the
  rest.  \<open>klist0 d s\<close> are the children of each device once \<^verbatim>\<open>device_private_init\<close> has run
  for \<open>d\<close>, and \<open>registered d s s'\<close> is what a successful \<^verbatim>\<open>device_add\<close> of \<open>d\<close> makes of \<open>s\<close>.
\<close>

definition add_from_devt :: "add_env \<Rightarrow> dev \<Rightarrow> dev option \<Rightarrow> kstate \<Rightarrow> (int \<times> kstate) option" where
  "add_from_devt env d par s7 =
     (if major_devt env \<and> dev_file_ret env \<noteq> 0
      then Some (add_DevAttrError d par (dev_file_ret env) s7)
      else if major_devt env \<and> sys_dev_entry_ret env \<noteq> 0
      then Some (add_DevAttrError d par (sys_dev_entry_ret env) s7)
      else (case par of
              None \<Rightarrow> Some (add_done d 0 s7)
            | Some q \<Rightarrow>
                (case klist_add_tail_parent d q s7 of
                   None \<Rightarrow> None
                 | Some s8 \<Rightarrow> Some (add_done d 0 s8))))"

definition add_from_sysfs :: "add_env \<Rightarrow> dev \<Rightarrow> dev option \<Rightarrow> kstate \<Rightarrow> (int \<times> kstate) option" where
  "add_from_sysfs env d par s6 =
     (if uevent_file_ret env \<noteq> 0
      then Some (add_attrError d par (uevent_file_ret env) s6)
      else if class_symlinks_ret env \<noteq> 0
      then Some (add_attrError d par (class_symlinks_ret env) s6)
      else if add_attrs_ret env \<noteq> 0
      then Some (add_attrError d par (add_attrs_ret env) s6)
      else if bus_add_device_ret env \<noteq> 0
      then Some (add_attrError d par (bus_add_device_ret env) s6)
      else if dpm_sysfs_add_ret env \<noteq> 0
      then Some (add_attrError d par (dpm_sysfs_add_ret env) s6)
      else add_from_devt env d par (device_pm_add d s6))"

definition add_from_parent :: "add_env \<Rightarrow> dev \<Rightarrow> kstate \<Rightarrow> (int \<times> kstate) option" where
  "add_from_parent env d s4 =
     (if get_device_parent_err env \<noteq> 0
      then Some (add_parent_error d (parent (devs s4 d)) (get_device_parent_err env)
                   (get_device (parent (devs s4 d)) s4))
      else if kobject_add_ret env \<noteq> 0
      then Some (add_parent_error d (parent (devs s4 d)) (kobject_add_ret env)
                   (get_device (parent (devs s4 d)) s4))
      else add_from_sysfs env d (parent (devs s4 d))
             (kobject_add d (get_device (parent (devs s4 d)) s4)))"

definition klist0 :: "dev \<Rightarrow> kstate \<Rightarrow> dev \<Rightarrow> dev list option" where
  "klist0 d s x = (if x = d \<and> klist_children (devs s d) = None then Some []
                   else klist_children (devs s x))"

definition registered :: "dev \<Rightarrow> kstate \<Rightarrow> kstate \<Rightarrow> bool" where
  "registered d s s' =
     (devices_kset s' = devices_kset s @ [d] \<and> dpm_list s' = dpm_list s @ [d]
      \<and> dlinks s' = dlinks s \<and> next_link s' = next_link s
      \<and> (\<forall>x. klist_children (devs s' x) =
             (if parent (devs s d) = Some x then map_option (\<lambda>cs. cs @ [d]) (klist0 d s x)
              else klist0 d s x))
      \<and> (\<forall>q. parent (devs s d) = Some q \<longrightarrow> klist0 d s q \<noteq> None))"

definition res_reg :: "dev \<Rightarrow> kstate \<Rightarrow> (int \<times> kstate) option \<Rightarrow> bool" where
  "res_reg d s r = (case r of None \<Rightarrow> True | Some x \<Rightarrow> fst x = 0 \<longrightarrow> registered d s (snd x))"

text \<open>
  The three registrations of the example, and the shape of the state behind them.
\<close>

definition ex_ops :: "op list" where
  "ex_ops = [Register env_ok 10 None (Some ''a''), Register env_ok 11 (Some 10) (Some ''b''),
             Register env_ok 12 None (Some ''c'')]"

definition ex_shape :: "kstate \<Rightarrow> bool" where
  "ex_shape s =
     (devices_kset s = [10, 11, 12] \<and> dpm_list s = [10, 11, 12] \<and> dlinks s = []
      \<and> klist_children (devs s 10) = Some [11] \<and> klist_children (devs s 11) = Some []
      \<and> klist_children (devs s 12) = Some [])"

section \<open>Auxiliary facts\<close>

lemma boot_state_initialized:
  "devs (device_initialize d (upd_dev d (\<lambda>_. zeroed_device) s)) d = devs boot_state d"
  by (simp add: device_initialize_def upd_dev_def boot_state_def)

lemma is_dependent_self: "device_is_dependent s d d = Some 1"
  by (subst device_is_dependent.simps) simp

lemma reorder_loop_frame:
  fixes f :: "kstate \<Rightarrow> dev \<Rightarrow> kstate option"
  assumes "\<And>s d y. f s d = Some y \<Longrightarrow> dlinks y = dlinks s \<and> devs y = devs s \<and> next_link y = next_link s"
    and "reorder_loop f ds s = Some y"
  shows "dlinks y = dlinks s \<and> devs y = devs s \<and> next_link y = next_link s"
  using assms(2)
proof (induction ds arbitrary: s)
  case Nil
  then show ?case by simp
next
  case (Cons a ds)
  then obtain s' where a: "f s a = Some s'" and b: "reorder_loop f ds s' = Some y"
    by (auto split: bind_splits)
  from assms(1)[OF a] Cons.IH[OF b] show ?case by simp
qed

lemma reorder_frame:
  assumes "device_reorder_to_tail s d = Some y"
  shows "dlinks y = dlinks s \<and> devs y = devs s \<and> next_link y = next_link s"
proof (rule device_reorder_to_tail.raw_induct[OF _ assms])
  fix f :: "kstate \<Rightarrow> dev \<Rightarrow> kstate option" and s :: kstate and dev :: dev and y :: kstate
  assume IH: "\<And>s d y. f s d = Some y \<Longrightarrow>
                 dlinks y = dlinks s \<and> devs y = devs s \<and> next_link y = next_link s"
  let ?s1 = "(if device_is_registered s dev then devices_kset_move_last dev s else s)"
  let ?s2 = "(if device_pm_initialized ?s1 dev then device_pm_move_last dev ?s1 else ?s1)"
  assume body: "(let s1 = ?s1; s2 = (if device_pm_initialized s1 dev then device_pm_move_last dev s1 else s1)
      in (case klist_children (devs s2 dev) of None \<Rightarrow> Some s2
          | Some cs \<Rightarrow> reorder_loop f cs s2) \<bind>
         (\<lambda>s3. reorder_loop f (map consumer (links_consumers s3 dev)) s3)) = Some y"
  have fr2: "dlinks ?s2 = dlinks s \<and> devs ?s2 = devs s \<and> next_link ?s2 = next_link s"
    by (simp add: devices_kset_move_last_def device_pm_move_last_def)
  from body obtain s3 where
    a: "(case klist_children (devs ?s2 dev) of None \<Rightarrow> Some ?s2
         | Some cs \<Rightarrow> reorder_loop f cs ?s2) = Some s3"
    and b: "reorder_loop f (map consumer (links_consumers s3 dev)) s3 = Some y"
    unfolding Let_def by (auto split: bind_splits)
  have fr3: "dlinks s3 = dlinks ?s2 \<and> devs s3 = devs ?s2 \<and> next_link s3 = next_link ?s2"
  proof (cases "klist_children (devs ?s2 dev)")
    case None
    with a show ?thesis by simp
  next
    case (Some cs)
    with a have "reorder_loop f cs ?s2 = Some s3" by simp
    from reorder_loop_frame[of f, OF IH this] show ?thesis by simp
  qed
  have fr4: "dlinks y = dlinks s3 \<and> devs y = devs s3 \<and> next_link y = next_link s3"
    using reorder_loop_frame[of f, OF IH b] by simp
  from fr2 fr3 fr4 show "dlinks y = dlinks s \<and> devs y = devs s \<and> next_link y = next_link s"
    by simp
qed

lemma initial_link_status_spec:
  "initial_link_status fl sst cst = spec_initial_state fl sst cst"
  by (cases sst; cases cst) (simp_all add: initial_link_status_def spec_initial_state_def)

lemma find_links_consumers_None:
  "(find (\<lambda>link. consumer link = c) (links_consumers s sp) = None) =
     (\<not> (\<exists>link \<in> set (dlinks s). consumer link = c \<and> supplier link = sp))"
  by (auto simp: find_None_iff links_consumers_def)

lemma get_device_frame [simp]:
  "dlinks (get_device d s) = dlinks s" "devices_kset (get_device d s) = devices_kset s"
  "dpm_list (get_device d s) = dpm_list s" "next_link (get_device d s) = next_link s"
  "links_status (devs (get_device d s) x) = links_status (devs s x)"
  "klist_children (devs (get_device d s) x) = klist_children (devs s x)"
  "parent (devs (get_device d s) x) = parent (devs s x)"
  by (simp_all add: get_device_def upd_dev_def split: option.splits)

lemma put_device_frame [simp]:
  "dlinks (put_device d s) = dlinks s" "devices_kset (put_device d s) = devices_kset s"
  "dpm_list (put_device d s) = dpm_list s" "next_link (put_device d s) = next_link s"
  "links_status (devs (put_device d s) x) = links_status (devs s x)"
  "klist_children (devs (put_device d s) x) = klist_children (devs s x)"
  "parent (devs (put_device d s) x) = parent (devs s x)"
  by (simp_all add: put_device_def upd_dev_def split: option.splits)

text \<open>The shape of a successful call that creates a link.\<close>

lemma device_link_add_new:
  assumes ok: "device_link_add env (Some c) (Some sp) fl s = Some (Inr a, s')"
    and fresh: "\<not> (\<exists>link \<in> set (dlinks s). consumer link = c \<and> supplier link = sp)"
  shows "\<exists>s2. device_reorder_to_tail (get_device (Some c) (get_device (Some sp) s)) c = Some s2
           \<and> s' = s2\<lparr>dlinks := dlinks s2 @ [new_link c sp fl s], next_link := Suc (next_link s2)\<rparr>
           \<and> a = next_link s \<and> device_is_dependent s c sp = Some 0
           \<and> sp \<in> set (dpm_list s)"
proof -
  from fresh have nf: "find (\<lambda>link. consumer link = c) (links_consumers s sp) = None"
    by (simp add: find_links_consumers_None)
  from ok nf show ?thesis
    unfolding device_link_add_def
    by (auto simp: Let_def new_link_def device_pm_initialized_def split: if_splits bind_splits)
qed

lemma device_link_add_existing:
  assumes ok: "device_link_add env (Some c) (Some sp) fl s = Some (Inr a, s')"
    and ex: "\<exists>link \<in> set (dlinks s). consumer link = c \<and> supplier link = sp"
  shows "s' = s \<and> (\<exists>link \<in> set (dlinks s). addr link = a \<and> consumer link = c \<and> supplier link = sp)
         \<and> device_is_dependent s c sp = Some 0 \<and> sp \<in> set (dpm_list s)"
proof -
  from ex obtain link where f: "find (\<lambda>link. consumer link = c) (links_consumers s sp) = Some link"
    using find_links_consumers_None[of c s sp] by auto
  then have "link \<in> set (dlinks s) \<and> consumer link = c \<and> supplier link = sp"
    by (auto simp: find_Some_iff links_consumers_def dest: nth_mem)
  with ok f show ?thesis
    unfolding device_link_add_def
    by (auto simp: Let_def device_pm_initialized_def split: if_splits bind_splits)
qed

lemma upd_dev_frame [simp]:
  "dlinks (upd_dev d f s) = dlinks s" "devices_kset (upd_dev d f s) = devices_kset s"
  "dpm_list (upd_dev d f s) = dpm_list s" "next_link (upd_dev d f s) = next_link s"
  "devs (upd_dev d f s) d = f (devs s d)"
  "x \<noteq> d \<Longrightarrow> devs (upd_dev d f s) x = devs s x"
  by (simp_all add: upd_dev_def)

lemma missing_supplier_append:
  "device_links_missing_supplier d (xs @ ys) =
     device_links_missing_supplier d xs @ device_links_missing_supplier d ys"
  by (simp add: device_links_missing_supplier_def)

lemma check_suppliers_loop_ok:
  "\<forall>link \<in> set rest. consumer link = d \<and> \<not> stateless link \<longrightarrow> status link = DL_STATE_AVAILABLE \<Longrightarrow>
   check_suppliers_loop d seen rest =
     (seen @ map (\<lambda>link. if consumer link = d \<and> \<not> stateless link
                          then link\<lparr>status := DL_STATE_CONSUMER_PROBE\<rparr> else link) rest, 0)"
  by (induction rest arbitrary: seen) (auto simp: stateless_def)

lemma check_suppliers_loop_defer:
  "\<exists>link \<in> set rest. consumer link = d \<and> \<not> stateless link \<and> status link \<noteq> DL_STATE_AVAILABLE \<Longrightarrow>
   check_suppliers_loop d seen rest =
     (device_links_missing_supplier d seen @ device_links_missing_supplier d rest, - EPROBE_DEFER)"
proof (induction rest arbitrary: seen)
  case Nil
  then show ?case by simp
next
  case (Cons link rest)
  show ?case
  proof (cases "consumer link = d \<and> \<not> stateless link")
    case False
    with Cons.prems have "\<exists>l \<in> set rest. consumer l = d \<and> \<not> stateless l \<and> status l \<noteq> DL_STATE_AVAILABLE"
      by auto
    from Cons.IH[OF this, of "seen @ [link]"] False show ?thesis
      by (auto simp: stateless_def device_links_missing_supplier_def)
  next
    case True
    show ?thesis
    proof (cases "status link = DL_STATE_AVAILABLE")
      case False
      with True show ?thesis
        by (simp add: stateless_def device_links_missing_supplier_def)
    next
      case av: True
      with True Cons.prems have "\<exists>l \<in> set rest. consumer l = d \<and> \<not> stateless l \<and> status l \<noteq> DL_STATE_AVAILABLE"
        by auto
      from Cons.IH[OF this, of "seen @ [link\<lparr>status := DL_STATE_CONSUMER_PROBE\<rparr>]"] True av
      show ?thesis
        by (simp add: stateless_def device_links_missing_supplier_def)
    qed
  qed
qed

lemma ex_klist [simp]:
  "klist_children (devs (ex_state st) 10) = Some [11]"
  "klist_children (devs (ex_state st) 11) = Some []"
  "klist_children (devs (ex_state st) 12) = Some []"
  by (simp_all add: ex_state_def)

lemma ex_lists [simp]:
  "dlinks (ex_state st) = [\<lparr> addr = 0, supplier = 11, consumer = 12, flags = 0, status = st,
                   rpm_active = False \<rparr>]"
  "devices_kset (ex_state st) = [10, 11, 12]" "dpm_list (ex_state st) = [10, 11, 12]"
  "next_link (ex_state st) = 1"
  by (simp_all add: ex_state_def)

lemma ex_links_status [simp]: "links_status (devs (ex_state st) x) = DL_DEV_NO_DRIVER"
  by (simp add: ex_state_def boot_state_def zeroed_device_def)

lemma ex_is_dependent_12: "x \<noteq> 12 \<Longrightarrow> device_is_dependent (ex_state st) 12 x = Some 0"
  by (subst device_is_dependent.simps)
     (simp add: device_for_each_child_def links_consumers_def)

lemma ex_reorder_12:
  "klist_children (devs s 12) = Some [] \<Longrightarrow> dlinks s = dlinks (ex_state st) \<Longrightarrow>
   \<exists>s2. device_reorder_to_tail s 12 = Some s2"
  by (subst device_reorder_to_tail.simps)
     (simp add: links_consumers_def 
         device_is_registered_def device_pm_initialized_def devices_kset_move_last_def device_pm_move_last_def Let_def)

lemma kref_get_put [simp]:
  "kref (devs (get_device p s) x) = kref (devs s x) + (if p = Some x then 1 else 0)"
  "kref (devs (put_device p s) x) = kref (devs s x) - (if p = Some x then 1 else 0)"
  by (auto simp: get_device_def put_device_def upd_dev_def split: option.splits)

lemma ordering_frame [simp]:
  "devs (kobject_add d s) = devs s" "dlinks (kobject_add d s) = dlinks s"
  "dpm_list (kobject_add d s) = dpm_list s" "devices_kset (kobject_add d s) = devices_kset s @ [d]"
  "devs (kobject_del d s) = devs s" "dlinks (kobject_del d s) = dlinks s"
  "dpm_list (kobject_del d s) = dpm_list s" "devices_kset (kobject_del d s) = removeAll d (devices_kset s)"
  "devs (device_pm_add d s) = devs s" "dlinks (device_pm_add d s) = dlinks s"
  "dpm_list (device_pm_add d s) = dpm_list s @ [d]" "devices_kset (device_pm_add d s) = devices_kset s"
  "devs (device_pm_remove d s) = devs s" "dlinks (device_pm_remove d s) = dlinks s"
  "dpm_list (device_pm_remove d s) = removeAll d (dpm_list s)" "devices_kset (device_pm_remove d s) = devices_kset s"
  by (simp_all add: kobject_add_def kobject_del_def device_pm_add_def device_pm_remove_def)

lemma upd_dev_fields [simp]:
  "kref (devs (upd_dev d (\<lambda>r. r\<lparr>klist_children := v\<rparr>) s) x) = kref (devs s x)"
  "kref (devs (upd_dev d (\<lambda>r. r\<lparr>kobj_name := n, init_name := i\<rparr>) s) x) = kref (devs s x)"
  "kref (devs (upd_dev d (\<lambda>r. r\<lparr>kobj_name := n\<rparr>) s) x) = kref (devs s x)"
  "klist_children (devs (upd_dev d (\<lambda>r. r\<lparr>kobj_name := n, init_name := i\<rparr>) s) x) = klist_children (devs s x)"
  "klist_children (devs (upd_dev d (\<lambda>r. r\<lparr>kobj_name := n\<rparr>) s) x) = klist_children (devs s x)"
  "klist_children (devs (upd_dev d (\<lambda>r. r\<lparr>klist_children := v\<rparr>) s) x) = (if x = d then v else klist_children (devs s x))"
  "parent (devs (upd_dev d (\<lambda>r. r\<lparr>kobj_name := n, init_name := i\<rparr>) s) x) = parent (devs s x)"
  "parent (devs (upd_dev d (\<lambda>r. r\<lparr>kobj_name := n\<rparr>) s) x) = parent (devs s x)"
  "parent (devs (upd_dev d (\<lambda>r. r\<lparr>klist_children := v\<rparr>) s) x) = parent (devs s x)"
  by (simp_all add: upd_dev_def)

lemma add_done_unwound:
  assumes "devices_kset t = devices_kset s" "dpm_list t = dpm_list s" "dlinks t = dlinks s"
    "\<forall>x. kref (devs t x) = kref (devs s x) + (if x = d then 1 else 0)"
    "\<forall>x. x \<noteq> d \<longrightarrow> klist_children (devs t x) = klist_children (devs s x)"
    "klist_children (devs t d) = None"
  shows "unwound d s (snd (add_done d e t))"
  using assms by (simp add: unwound_def add_done_def)

lemma add_name_error_unwound:
  assumes "devices_kset t = devices_kset s" "dpm_list t = dpm_list s" "dlinks t = dlinks s"
    "\<forall>x. kref (devs t x) = kref (devs s x) + (if x = d then 1 else 0)"
    "\<forall>x. x \<noteq> d \<longrightarrow> klist_children (devs t x) = klist_children (devs s x)"
  shows "unwound d s (snd (add_name_error d e t))"
  using assms by (simp add: unwound_def add_done_def add_name_error_def)

lemma add_parent_error_unwound:
  assumes "devices_kset t = devices_kset s" "dpm_list t = dpm_list s" "dlinks t = dlinks s"
    "\<forall>x. kref (devs t x) = kref (devs s x) + (if x = d then 1 else 0) + (if par = Some x then 1 else 0)"
    "\<forall>x. x \<noteq> d \<longrightarrow> klist_children (devs t x) = klist_children (devs s x)"
  shows "unwound d s (snd (add_parent_error d par e t))"
  using assms by (simp add: unwound_def add_done_def add_name_error_def add_parent_error_def)

lemma add_attrError_unwound:
  assumes "devices_kset t = devices_kset s @ [d]" "d \<notin> set (devices_kset s)"
    "dpm_list t = dpm_list s" "dlinks t = dlinks s"
    "\<forall>x. kref (devs t x) = kref (devs s x) + (if x = d then 1 else 0) + (if par = Some x then 1 else 0)"
    "\<forall>x. x \<noteq> d \<longrightarrow> klist_children (devs t x) = klist_children (devs s x)"
  shows "unwound d s (snd (add_attrError d par e t))"
  using assms
  by (simp add: unwound_def add_done_def add_name_error_def add_parent_error_def add_attrError_def)

lemma add_DevAttrError_unwound:
  assumes "devices_kset t = devices_kset s @ [d]" "d \<notin> set (devices_kset s)"
    "dpm_list t = dpm_list s @ [d]" "d \<notin> set (dpm_list s)" "dlinks t = dlinks s"
    "\<forall>x. kref (devs t x) = kref (devs s x) + (if x = d then 1 else 0) + (if par = Some x then 1 else 0)"
    "\<forall>x. x \<noteq> d \<longrightarrow> klist_children (devs t x) = klist_children (devs s x)"
  shows "unwound d s (snd (add_DevAttrError d par e t))"
  using assms
  by (simp add: unwound_def add_done_def add_name_error_def add_parent_error_def add_attrError_def
        add_DevAttrError_def)

lemma add_label_fst [simp]:
  "fst (add_done d e t) = e" "fst (add_name_error d e t) = e"
  "fst (add_parent_error d par e t) = e" "fst (add_attrError d par e t) = e"
  "fst (add_DevAttrError d par e t) = e"
  by (simp_all add: add_done_def add_name_error_def add_parent_error_def add_attrError_def
        add_DevAttrError_def)

lemma res_ok_simps [simp]:
  "res_ok d s None" "res_ok d s (Some x) = (fst x \<noteq> 0 \<longrightarrow> unwound d s (snd x))"
  by (simp_all add: res_ok_def)

lemma ex_fresh_13:
  "13 \<notin> set (devices_kset (ex_state st))" "13 \<notin> set (dpm_list (ex_state st))"
  "\<forall>q cs. klist_children (devs (ex_state st) q) = Some cs \<longrightarrow> 13 \<notin> set cs"
  by (auto simp: ex_state_def boot_state_def zeroed_device_def split: if_splits)

lemma filter_remove1_out: "P y \<Longrightarrow> filter (\<lambda>x. \<not> P x) (remove1 y xs) = filter (\<lambda>x. \<not> P x) xs"
  by (induction xs) auto

lemma fold_remove1_filter:
  "mset ys = mset (filter P xs) \<Longrightarrow> fold remove1 ys xs = filter (\<lambda>x. \<not> P x) xs"
proof (induction ys arbitrary: xs)
  case Nil
  then have "filter P xs = []" by simp
  then have "\<forall>x \<in> set xs. \<not> P x" by (simp add: filter_empty_conv)
  then show ?case by simp
next
  case (Cons y ys)
  from Cons.prems have "y \<in># mset (filter P xs)" by (metis list.set_intros(1) set_mset_mset)
  then have py: "P y" and yin: "y \<in> set xs" by auto
  have "mset (filter P (remove1 y xs)) = mset (filter P xs) - {#y#}"
    using py by (induction xs) auto
  with Cons.prems have "mset ys = mset (filter P (remove1 y xs))"
    by (metis add_mset_remove_trivial mset.simps(2))
  from Cons.IH[OF this] py show ?case by (simp add: filter_remove1_out)
qed

lemma link_del_dlinks:
  "dlinks (fold device_link_del_locked ls s) = fold remove1 ls (dlinks s)"
  by (induction ls arbitrary: s) (simp_all add: device_link_del_locked_def device_link_free_def)

lemma link_del_lists:
  "devices_kset (fold device_link_del_locked ls s) = devices_kset s
   \<and> dpm_list (fold device_link_del_locked ls s) = dpm_list s
   \<and> (\<forall>x. klist_children (devs (fold device_link_del_locked ls s) x) = klist_children (devs s x))
   \<and> (\<forall>x. parent (devs (fold device_link_del_locked ls s) x) = parent (devs s x))"
  by (induction ls arbitrary: s) (simp_all add: device_link_del_locked_def device_link_free_def)

lemma purge_dlinks:
  "dlinks (device_links_purge d s) = filter (\<lambda>l. consumer l \<noteq> d \<and> supplier l \<noteq> d) (dlinks s)"
proof -
  let ?s1 = "fold device_link_del_locked (rev (links_suppliers s d)) s"
  have a: "dlinks ?s1 = filter (\<lambda>l. \<not> consumer l = d) (dlinks s)"
    unfolding link_del_dlinks links_suppliers_def
    by (rule fold_remove1_filter) simp
  have "dlinks (device_links_purge d s) = filter (\<lambda>l. \<not> supplier l = d) (dlinks ?s1)"
    unfolding device_links_purge_def Let_def link_del_dlinks links_consumers_def
    by (rule fold_remove1_filter) simp
  with a show ?thesis by (simp add: conj_commute)
qed

lemma purge_lists:
  "devices_kset (device_links_purge d s) = devices_kset s
   \<and> dpm_list (device_links_purge d s) = dpm_list s
   \<and> (\<forall>x. klist_children (devs (device_links_purge d s) x) = klist_children (devs s x))
   \<and> (\<forall>x. parent (devs (device_links_purge d s) x) = parent (devs s x))"
  by (simp add: device_links_purge_def Let_def link_del_lists)

lemma klist_del_parent_frame [simp]:
  "dlinks (klist_del_parent d q s) = dlinks s"
  "devices_kset (klist_del_parent d q s) = devices_kset s"
  "dpm_list (klist_del_parent d q s) = dpm_list s"
  "klist_children (devs (klist_del_parent d q s) x) =
     (if x = q then map_option (removeAll d) (klist_children (devs s q)) else klist_children (devs s x))"
  by (simp_all add: klist_del_parent_def upd_dev_def)

lemma ex_parent_11: "parent (devs (ex_state st) 11) = Some 10"
  by (simp add: ex_state_def)

lemma precedes_mem: "precedes xs a b \<Longrightarrow> a \<in> set xs \<and> b \<in> set xs"
  by (induction xs) (auto split: if_splits)

lemma precedes_append: "precedes xs a b \<Longrightarrow> precedes (xs @ ys) a b"
  by (induction xs) (auto split: if_splits)

lemma precedes_snoc: "a \<in> set xs \<Longrightarrow> precedes (xs @ [b]) a b"
  by (induction xs) auto

lemma precedes_removeAll:
  "a \<noteq> d \<Longrightarrow> b \<noteq> d \<Longrightarrow> precedes xs a b \<Longrightarrow> precedes (removeAll d xs) a b"
  by (induction xs) (auto split: if_splits)

lemma move_tail_keep:
  assumes "a \<noteq> d" "precedes xs a b"
  shows "precedes (list_move_tail d xs) a b"
proof (cases "b = d")
  case True
  from assms precedes_mem[OF assms(2)] have "a \<in> set (removeAll d xs)" by simp
  from precedes_snoc[OF this] True show ?thesis by (simp add: list_move_tail_def)
next
  case False
  from precedes_append[OF precedes_removeAll[OF assms(1) False assms(2)]]
  show ?thesis by (simp add: list_move_tail_def)
qed

lemma move_tail_last:
  assumes "a \<noteq> d" "a \<in> set xs"
  shows "precedes (list_move_tail d xs) a d"
proof -
  from assms have "a \<in> set (removeAll d xs)" by simp
  from precedes_snoc[OF this] show ?thesis by (simp add: list_move_tail_def)
qed

lemma move_tail_set: "d \<in> set xs \<Longrightarrow> set (list_move_tail d xs) = set xs"
  by (auto simp: list_move_tail_def)

lemma move_tail_distinct: "distinct xs \<Longrightarrow> distinct (list_move_tail d xs)"
  by (simp add: list_move_tail_def distinct_removeAll)

lemma rank_le: "rank xs a \<le> length xs"
  by (simp add: rank_def length_takeWhile_le)

lemma rank_mem: "a \<in> set xs \<Longrightarrow> rank xs a < length xs"
  unfolding rank_def by (induction xs) auto

lemma rank_notin: "a \<notin> set xs \<Longrightarrow> rank xs a = length xs"
  unfolding rank_def by (induction xs) auto

lemma precedes_rank: "distinct xs \<Longrightarrow> precedes xs a b \<Longrightarrow> rank xs a < rank xs b"
  unfolding rank_def by (induction xs) (auto split: if_splits dest: precedes_mem)

lemma depends_on_direct:
  "((v, d) \<in> depends_on s) =
     (v \<in> consumer ` set (links_consumers s d)
      \<or> (\<exists>cs. klist_children (devs s d) = Some cs \<and> v \<in> set cs))"
  by (auto simp: depends_on_def links_consumers_def)

lemma child_loop_value:
  assumes "\<forall>c \<in> set cs. fn c = Some (if Q c then 1 else 0)"
  shows "child_loop fn cs (if e then 1 else 0) = Some (if e \<or> (\<exists>c \<in> set cs. Q c) then 1 else 0)"
  using assms
proof (induction cs arbitrary: e)
  case Nil
  then show ?case by simp
next
  case (Cons c cs)
  show ?case
  proof (cases e)
    case True
    then show ?thesis by simp
  next
    case False
    from Cons.prems have c: "fn c = Some (if Q c then 1 else 0)" by simp
    from Cons.prems have "\<forall>c \<in> set cs. fn c = Some (if Q c then 1 else 0)" by simp
    from Cons.IH[OF this, of "Q c"] False c show ?thesis by simp
  qed
qed

lemma dep_loop_value:
  assumes "\<forall>l \<in> set ls. fn (consumer l) = Some (if Q (consumer l) then 1 else 0)"
    and "Q t"
  shows "dep_loop fn t ls 0 = Some (if \<exists>l \<in> set ls. Q (consumer l) then 1 else 0)"
  using assms(1)
proof (induction ls)
  case Nil
  then show ?case by simp
next
  case (Cons l ls)
  from Cons.prems have l: "fn (consumer l) = Some (if Q (consumer l) then 1 else 0)" by simp
  from Cons.prems have "\<forall>l \<in> set ls. fn (consumer l) = Some (if Q (consumer l) then 1 else 0)"
    by simp
  from Cons.IH[OF this] l assms(2) show ?case by auto
qed

lemma is_dependent_value:
  assumes wf: "wf (depends_on s)"
  shows "device_is_dependent s d t = Some (if (t, d) \<in> (depends_on s)\<^sup>* then 1 else 0)"
  using wf
proof (induction d rule: wf_induct_rule)
  case (less d)
  let ?D = "depends_on s"
  let ?Q = "\<lambda>c. (t, c) \<in> ?D\<^sup>*"
  show ?case
  proof (cases "d = t")
    case True
    then show ?thesis by (subst device_is_dependent.simps) simp
  next
    case False
    have ch: "device_for_each_child s d (\<lambda>c. device_is_dependent s c t)
                = Some (if \<exists>cs. klist_children (devs s d) = Some cs \<and> (\<exists>c \<in> set cs. ?Q c) then 1 else 0)"
    proof (cases "klist_children (devs s d)")
      case None
      then show ?thesis by (simp add: device_for_each_child_def)
    next
      case (Some cs)
      have "\<forall>c \<in> set cs. device_is_dependent s c t = Some (if ?Q c then 1 else 0)"
        using less.IH Some by (auto simp: depends_on_direct)
      from child_loop_value[OF this, of False] Some show ?thesis
        by (simp add: device_for_each_child_def)
    qed
    have lk: "dep_loop (\<lambda>c. device_is_dependent s c t) t (links_consumers s d) 0
                = Some (if \<exists>l \<in> set (links_consumers s d). ?Q (consumer l) then 1 else 0)"
    proof (rule dep_loop_value)
      show "\<forall>l \<in> set (links_consumers s d).
              device_is_dependent s (consumer l) t = Some (if ?Q (consumer l) then 1 else 0)"
        using less.IH by (auto simp: depends_on_direct)
      show "?Q t" by simp
    qed
    have step: "(t, d) \<in> ?D\<^sup>* \<longleftrightarrow>
          (\<exists>cs. klist_children (devs s d) = Some cs \<and> (\<exists>c \<in> set cs. ?Q c))
          \<or> (\<exists>l \<in> set (links_consumers s d). ?Q (consumer l))"
    proof
      assume "(t, d) \<in> ?D\<^sup>*"
      with False obtain v where "(t, v) \<in> ?D\<^sup>*" "(v, d) \<in> ?D"
        by (metis rtranclE)
      then show "(\<exists>cs. klist_children (devs s d) = Some cs \<and> (\<exists>c \<in> set cs. ?Q c))
          \<or> (\<exists>l \<in> set (links_consumers s d). ?Q (consumer l))"
        by (auto simp: depends_on_direct)
    next
      assume "(\<exists>cs. klist_children (devs s d) = Some cs \<and> (\<exists>c \<in> set cs. ?Q c))
          \<or> (\<exists>l \<in> set (links_consumers s d). ?Q (consumer l))"
      then obtain v where "(t, v) \<in> ?D\<^sup>*" "(v, d) \<in> ?D"
        by (auto simp: depends_on_direct)
      then show "(t, d) \<in> ?D\<^sup>*" by (rule rtrancl_into_rtrancl)
    qed
    show ?thesis
      apply (subst device_is_dependent.simps)
      using False ch lk step by auto
  qed
qed

lemma with_lists_simps [simp]:
  "devs (with_lists s xs) = devs s" "dlinks (with_lists s xs) = dlinks s"
  "next_link (with_lists s xs) = next_link s"
  "devices_kset (with_lists s xs) = xs" "dpm_list (with_lists s xs) = xs"
  "links_consumers (with_lists s xs) d = links_consumers s d"
  "depends_on (with_lists s xs) = depends_on s"
  "with_lists (with_lists s xs) ys = with_lists s ys"
  by (simp_all add: with_lists_def links_consumers_def depends_on_def)

lemma tail_moved_empty: "distinct xs \<Longrightarrow> tail_moved D {} xs xs"
  by (simp add: tail_moved_def)

lemma tail_moved_union:
  assumes 1: "tail_moved D S1 xs ys" and 2: "tail_moved D S2 ys zs"
  shows "tail_moved D (S1 \<union> S2) xs zs"
  unfolding tail_moved_def
proof (intro conjI allI impI)
  from 1 2 show "set zs = set xs" by (simp add: tail_moved_def)
  from 2 show "distinct zs" by (simp add: tail_moved_def)
next
  fix a b assume out: "\<forall>c \<in> S1 \<union> S2. (a, c) \<notin> D\<^sup>*" and p: "precedes xs a b"
  from 1 out p have "precedes ys a b" by (simp add: tail_moved_def)
  with 2 out show "precedes zs a b" by (simp add: tail_moved_def)
next
  fix a b assume out: "\<forall>c \<in> S1 \<union> S2. (a, c) \<notin> D\<^sup>*" and a: "a \<in> set xs"
    and bin: "\<exists>c \<in> S1 \<union> S2. (b, c) \<in> D\<^sup>*" and b: "b \<in> set xs"
  from 1 have set: "set ys = set xs" by (simp add: tail_moved_def)
  show "precedes zs a b"
  proof (cases "\<exists>c \<in> S2. (b, c) \<in> D\<^sup>*")
    case True
    with 2 out a b set show ?thesis unfolding tail_moved_def by blast
  next
    case False
    with bin have "\<exists>c \<in> S1. (b, c) \<in> D\<^sup>*" by blast
    with 1 out a b have "precedes ys a b" unfolding tail_moved_def by blast
    with 2 out show ?thesis by (simp add: tail_moved_def)
  qed
next
  fix a b assume e: "(b, a) \<in> D" and ain: "\<exists>c \<in> S1 \<union> S2. (a, c) \<in> D\<^sup>*"
    and a: "a \<in> set xs" and b: "b \<in> set xs"
  from 1 have set: "set ys = set xs" by (simp add: tail_moved_def)
  show "precedes zs a b"
  proof (cases "\<exists>c \<in> S2. (a, c) \<in> D\<^sup>*")
    case True
    with 2 e a b set show ?thesis unfolding tail_moved_def by blast
  next
    case False
    with ain have "\<exists>c \<in> S1. (a, c) \<in> D\<^sup>*" by blast
    with 1 e a b have "precedes ys a b" unfolding tail_moved_def by blast
    with 2 False show ?thesis unfolding tail_moved_def by blast
  qed
qed

lemma tail_moved_root:
  assumes acyc: "\<forall>c. (c, d) \<in> D \<longrightarrow> (d, c) \<notin> D\<^sup>*"
    and dist: "distinct xs"
    and sub: "tail_moved D {c. (c, d) \<in> D} (if d \<in> set xs then list_move_tail d xs else xs) ys"
  shows "tail_moved D {d} xs ys"
proof -
  let ?x0 = "if d \<in> set xs then list_move_tail d xs else xs"
  let ?S = "{c. (c, d) \<in> D}"
  have set0: "set ?x0 = set xs" by (simp add: move_tail_set)
  have below: "\<And>a. (a, d) \<in> D\<^sup>* \<Longrightarrow> a \<noteq> d \<Longrightarrow> \<exists>c \<in> ?S. (a, c) \<in> D\<^sup>*"
    by (metis mem_Collect_eq rtranclE)
  have out: "\<And>a. (a, d) \<notin> D\<^sup>* \<Longrightarrow> a \<noteq> d \<and> (\<forall>c \<in> ?S. (a, c) \<notin> D\<^sup>*)"
    by (metis mem_Collect_eq rtrancl.rtrancl_into_rtrancl rtrancl.rtrancl_refl)
  have keep: "\<And>a b. a \<noteq> d \<Longrightarrow> precedes xs a b \<Longrightarrow> precedes ?x0 a b"
    by (simp add: move_tail_keep)
  show ?thesis
    unfolding tail_moved_def
  proof (intro conjI allI impI)
    from sub set0 show "set ys = set xs" by (simp add: tail_moved_def)
    from sub show "distinct ys" by (simp add: tail_moved_def)
  next
    fix a b assume "\<forall>c \<in> {d}. (a, c) \<notin> D\<^sup>*" and p: "precedes xs a b"
    then have o: "a \<noteq> d \<and> (\<forall>c \<in> ?S. (a, c) \<notin> D\<^sup>*)" using out by simp
    with keep p have "precedes ?x0 a b" by blast
    with sub o show "precedes ys a b" unfolding tail_moved_def by blast
  next
    fix a b assume "\<forall>c \<in> {d}. (a, c) \<notin> D\<^sup>*" and a: "a \<in> set xs"
      and "\<exists>c \<in> {d}. (b, c) \<in> D\<^sup>*" and b: "b \<in> set xs"
    then have o: "a \<noteq> d \<and> (\<forall>c \<in> ?S. (a, c) \<notin> D\<^sup>*)" and bd: "(b, d) \<in> D\<^sup>*"
      using out by simp_all
    show "precedes ys a b"
    proof (cases "b = d")
      case True
      with a b o have "precedes ?x0 a b" by (simp add: move_tail_last)
      with sub o show ?thesis unfolding tail_moved_def by blast
    next
      case False
      with below bd have "\<exists>c \<in> ?S. (b, c) \<in> D\<^sup>*" by blast
      with sub o a b set0 show ?thesis unfolding tail_moved_def by blast
    qed
  next
    fix a b assume e: "(b, a) \<in> D" and "\<exists>c \<in> {d}. (a, c) \<in> D\<^sup>*"
      and a: "a \<in> set xs" and b: "b \<in> set xs"
    then have ad: "(a, d) \<in> D\<^sup>*" by simp
    show "precedes ys a b"
    proof (cases "a = d")
      case True
      with e have bS: "b \<in> ?S" by simp
      then have "\<exists>c \<in> ?S. (b, c) \<in> D\<^sup>*" by blast
      moreover from acyc True have "\<forall>c \<in> ?S. (a, c) \<notin> D\<^sup>*" by blast
      ultimately show ?thesis using sub a b set0 unfolding tail_moved_def by blast
    next
      case False
      with below ad have "\<exists>c \<in> ?S. (a, c) \<in> D\<^sup>*" by blast
      with sub e a b set0 show ?thesis unfolding tail_moved_def by blast
    qed
  qed
qed

lemma reorder_loop_tail_moved:
  fixes f :: "kstate \<Rightarrow> dev \<Rightarrow> kstate option"
  assumes "\<forall>c \<in> set ds. \<forall>xs. distinct xs \<longrightarrow>
             (\<exists>ys. f (with_lists s xs) c = Some (with_lists s ys) \<and> tail_moved D {c} xs ys)"
    and "distinct xs"
  shows "\<exists>ys. reorder_loop f ds (with_lists s xs) = Some (with_lists s ys)
              \<and> tail_moved D (set ds) xs ys"
  using assms
proof (induction ds arbitrary: xs)
  case Nil
  then show ?case by (intro exI[of _ xs]) (simp add: tail_moved_empty)
next
  case (Cons c ds)
  from Cons.prems obtain ys where
    c: "f (with_lists s xs) c = Some (with_lists s ys)" and t1: "tail_moved D {c} xs ys"
    by auto
  from t1 have "distinct ys" by (simp add: tail_moved_def)
  with Cons.IH[of ys] Cons.prems(1) obtain zs where
    r: "reorder_loop f ds (with_lists s ys) = Some (with_lists s zs)"
    and t2: "tail_moved D (set ds) ys zs"
    by auto
  from tail_moved_union[OF t1 t2] have "tail_moved D (set (c # ds)) xs zs" by simp
  with c r show ?case by auto
qed

lemma wf_no_back:
  assumes "wf D" "(c, d) \<in> D"
  shows "(d, c) \<notin> D\<^sup>*"
proof
  assume "(d, c) \<in> D\<^sup>*"
  with assms(2) have "(c, c) \<in> D\<^sup>+" by (rule rtrancl_into_trancl2)
  with wf_trancl[OF assms(1)] show False by (metis wf_not_refl)
qed

lemma reorder_tail_moved:
  assumes wf: "wf (depends_on s)"
  shows "distinct xs \<Longrightarrow>
     \<exists>ys. device_reorder_to_tail (with_lists s xs) d = Some (with_lists s ys)
           \<and> tail_moved (depends_on s) {d} xs ys"
  using wf
proof (induction d arbitrary: xs rule: wf_induct_rule)
  case (less d)
  let ?D = "depends_on s"
  let ?x0 = "if d \<in> set xs then list_move_tail d xs else xs"
  let ?cs = "case klist_children (devs s d) of None \<Rightarrow> [] | Some cs \<Rightarrow> cs"
  let ?ls = "map consumer (links_consumers s d)"
  have d0: "distinct ?x0" using less.prems by (simp add: move_tail_distinct)
  let ?s1 = "if device_is_registered (with_lists s xs) d
             then devices_kset_move_last d (with_lists s xs) else with_lists s xs"
  have s2: "(if device_pm_initialized ?s1 d then device_pm_move_last d ?s1 else ?s1)
            = with_lists s ?x0"
    by (simp add: device_is_registered_def device_pm_initialized_def devices_kset_move_last_def
          device_pm_move_last_def with_lists_def Let_def)
  have IH: "\<And>c. (c, d) \<in> ?D \<Longrightarrow> \<forall>xs. distinct xs \<longrightarrow>
              (\<exists>ys. device_reorder_to_tail (with_lists s xs) c = Some (with_lists s ys)
                    \<and> tail_moved ?D {c} xs ys)"
    using less.IH by blast
  have "\<forall>c \<in> set ?cs. (c, d) \<in> ?D"
    by (auto simp: depends_on_direct split: option.splits)
  with IH have "\<forall>c \<in> set ?cs. \<forall>xs. distinct xs \<longrightarrow>
              (\<exists>ys. device_reorder_to_tail (with_lists s xs) c = Some (with_lists s ys)
                    \<and> tail_moved ?D {c} xs ys)" by blast
  from reorder_loop_tail_moved[OF this d0] obtain ys where
    l1: "reorder_loop device_reorder_to_tail ?cs (with_lists s ?x0) = Some (with_lists s ys)"
    and t1: "tail_moved ?D (set ?cs) ?x0 ys" by blast
  then have dy: "distinct ys" by (simp add: tail_moved_def)
  have "\<forall>c \<in> set ?ls. (c, d) \<in> ?D"
    by (auto simp: depends_on_direct)
  with IH have "\<forall>c \<in> set ?ls. \<forall>xs. distinct xs \<longrightarrow>
              (\<exists>ys. device_reorder_to_tail (with_lists s xs) c = Some (with_lists s ys)
                    \<and> tail_moved ?D {c} xs ys)" by blast
  from reorder_loop_tail_moved[OF this dy] obtain zs where
    l2: "reorder_loop device_reorder_to_tail ?ls (with_lists s ys) = Some (with_lists s zs)"
    and t2: "tail_moved ?D (set ?ls) ys zs" by blast
  have S: "set ?cs \<union> set ?ls = {c. (c, d) \<in> ?D}"
    by (auto simp: depends_on_direct split: option.splits)
  from tail_moved_union[OF t1 t2] S
  have sub: "tail_moved ?D {c. (c, d) \<in> ?D} ?x0 zs" by simp
  have acyc: "\<forall>c. (c, d) \<in> ?D \<longrightarrow> (d, c) \<notin> ?D\<^sup>*" using wf_no_back[OF wf] by blast
  from tail_moved_root[OF acyc less.prems sub] have tm: "tail_moved ?D {d} xs zs" .
  have l1': "(case klist_children (devs s d) of
                 None \<Rightarrow> Some (with_lists s ?x0)
               | Some cs \<Rightarrow> reorder_loop device_reorder_to_tail cs (with_lists s ?x0))
             = Some (with_lists s ys)"
    using l1 by (auto split: option.splits)
  have "device_reorder_to_tail (with_lists s xs) d = Some (with_lists s zs)"
    apply (subst device_reorder_to_tail.simps)
    apply (simp only: Let_def s2)
    using l1' l2 by simp
  with tm show ?case by blast
qed

lemma device_add_parts:
  "device_add env (Some d) s0 =
     (let s1 = get_device (Some d) s0 in
      if klist_children (devs s1 d) = None \<and> \<not> private_init_ok env
      then Some (add_done d (- ENOMEM) s1)
      else
        let s2 = (if klist_children (devs s1 d) = None
                  then upd_dev d (\<lambda>r. r\<lparr>klist_children := Some []\<rparr>) s1 else s1);
            s3 = (case init_name (devs s2 d) of
                    Some n \<Rightarrow> upd_dev d (\<lambda>r. r\<lparr>kobj_name := Some n, init_name := None\<rparr>) s2
                  | None \<Rightarrow> s2);
            s4 = (if kobj_name (devs s3 d) = None \<and> bus_dev_name env \<noteq> None
                  then upd_dev d (\<lambda>r. r\<lparr>kobj_name := bus_dev_name env\<rparr>) s3 else s3)
        in
        if kobj_name (devs s4 d) = None then Some (add_name_error d (- EINVAL) s4)
        else add_from_parent env d s4)"
  unfolding device_add_def add_from_parent_def add_from_sysfs_def add_from_devt_def Let_def
  by simp

lemma res_reg_simps [simp]:
  "res_reg d s None" "res_reg d s (Some x) = (fst x = 0 \<longrightarrow> registered d s (snd x))"
  by (simp_all add: res_reg_def)

lemma next_link_frame [simp]:
  "next_link (kobject_add d s) = next_link s" "next_link (kobject_del d s) = next_link s"
  "next_link (device_pm_add d s) = next_link s" "next_link (device_pm_remove d s) = next_link s"
  by (simp_all add: kobject_add_def kobject_del_def device_pm_add_def device_pm_remove_def)

lemma from_devt_registered:
  assumes "devices_kset t = devices_kset s @ [d]" "dpm_list t = dpm_list s @ [d]"
    "dlinks t = dlinks s" "next_link t = next_link s"
    "\<forall>x. klist_children (devs t x) = klist0 d s x" "par = parent (devs s d)"
  shows "res_reg d s (add_from_devt env d par t)"
proof (cases par)
  case None
  with assms show ?thesis
    by (simp add: add_from_devt_def registered_def add_done_def)
next
  case (Some q)
  show ?thesis
  proof (cases "klist0 d s q")
    case None
    with Some assms show ?thesis
      by (simp add: add_from_devt_def klist_add_tail_parent_def)
  next
    case (Some cs)
    with \<open>par = Some q\<close> assms show ?thesis
      by (simp add: add_from_devt_def klist_add_tail_parent_def registered_def add_done_def)
  qed
qed

lemma from_sysfs_registered:
  assumes "devices_kset t = devices_kset s @ [d]" "dpm_list t = dpm_list s"
    "dlinks t = dlinks s" "next_link t = next_link s"
    "\<forall>x. klist_children (devs t x) = klist0 d s x" "par = parent (devs s d)"
  shows "res_reg d s (add_from_sysfs env d par t)"
  unfolding add_from_sysfs_def using assms
  by (simp add: from_devt_registered)

lemma from_parent_registered:
  assumes "devices_kset t = devices_kset s" "dpm_list t = dpm_list s"
    "dlinks t = dlinks s" "next_link t = next_link s"
    "\<forall>x. klist_children (devs t x) = klist0 d s x" "parent (devs t d) = parent (devs s d)"
  shows "res_reg d s (add_from_parent env d t)"
  unfolding add_from_parent_def using assms
  by (simp add: from_sysfs_registered)

lemma EINVAL_ENOMEM_nonzero [simp]: "EINVAL \<noteq> 0" "ENOMEM \<noteq> 0"
  by (simp_all add: EINVAL_def ENOMEM_def)

lemma upd_dev_name_fields [simp]:
  "kobj_name (devs (upd_dev d (\<lambda>r. r\<lparr>klist_children := v\<rparr>) s) x) = kobj_name (devs s x)"
  "init_name (devs (upd_dev d (\<lambda>r. r\<lparr>klist_children := v\<rparr>) s) x) = init_name (devs s x)"
  by (simp_all add: upd_dev_def)

lemma device_add_registers: "res_reg d s (device_add env (Some d) s)"
proof -
  let ?s1 = "get_device (Some d) s"
  let ?s2 = "if klist_children (devs ?s1 d) = None
             then upd_dev d (\<lambda>r. r\<lparr>klist_children := Some []\<rparr>) ?s1 else ?s1"
  let ?s3 = "case init_name (devs ?s2 d) of
               Some n \<Rightarrow> upd_dev d (\<lambda>r. r\<lparr>kobj_name := Some n, init_name := None\<rparr>) ?s2
             | None \<Rightarrow> ?s2"
  let ?s4 = "if kobj_name (devs ?s3 d) = None \<and> bus_dev_name env \<noteq> None
             then upd_dev d (\<lambda>r. r\<lparr>kobj_name := bus_dev_name env\<rparr>) ?s3 else ?s3"
  have f2: "devices_kset ?s2 = devices_kset s \<and> dpm_list ?s2 = dpm_list s \<and> dlinks ?s2 = dlinks s
      \<and> next_link ?s2 = next_link s \<and> (\<forall>x. klist_children (devs ?s2 x) = klist0 d s x)
      \<and> parent (devs ?s2 d) = parent (devs s d)"
    by (simp add: klist0_def)
  have f3: "devices_kset ?s3 = devices_kset ?s2 \<and> dpm_list ?s3 = dpm_list ?s2
      \<and> dlinks ?s3 = dlinks ?s2 \<and> next_link ?s3 = next_link ?s2
      \<and> (\<forall>x. klist_children (devs ?s3 x) = klist_children (devs ?s2 x))
      \<and> parent (devs ?s3 d) = parent (devs ?s2 d)"
    by (simp split: option.split)
  have f4: "devices_kset ?s4 = devices_kset ?s3 \<and> dpm_list ?s4 = dpm_list ?s3
      \<and> dlinks ?s4 = dlinks ?s3 \<and> next_link ?s4 = next_link ?s3
      \<and> (\<forall>x. klist_children (devs ?s4 x) = klist_children (devs ?s3 x))
      \<and> parent (devs ?s4 d) = parent (devs ?s3 d)"
    by simp
  have "res_reg d s (add_from_parent env d ?s4)"
    by (rule from_parent_registered) (simp_all only: f2 f3 f4 simp_thms)
  then show ?thesis
    unfolding device_add_parts Let_def by simp
qed

lemma graph_inv_wf:
  assumes "graph_inv s"
  shows "wf (depends_on s)"
proof -
  let ?L = "dpm_list s"
  have "depends_on s \<subseteq> measure (\<lambda>x. length ?L - rank ?L x)"
  proof
    fix e assume e: "e \<in> depends_on s"
    obtain a b where ab: "e = (a, b)" by (cases e)
    have "rank ?L b < rank ?L a \<and> rank ?L b < length ?L"
    proof -
      from e ab consider
        (link) l where "l \<in> set (dlinks s)" "consumer l = a" "supplier l = b"
        | (child) cs where "klist_children (devs s b) = Some cs" "a \<in> set cs"
        by (auto simp: depends_on_def)
      then show ?thesis
      proof cases
        case link
        with assms have b: "b \<in> set ?L" by (auto simp: graph_inv_def)
        show ?thesis
        proof (cases "a \<in> set ?L")
          case True
          with link assms have "precedes ?L b a" by (auto simp: graph_inv_def links_ordered_def)
          with assms b show ?thesis by (simp add: graph_inv_def precedes_rank rank_mem)
        next
          case False
          with b show ?thesis by (simp add: rank_notin rank_mem)
        qed
      next
        case child
        with assms have "precedes ?L b a" by (auto simp: graph_inv_def children_ordered_def)
        with assms show ?thesis
          using precedes_mem[of ?L b a] by (simp add: graph_inv_def precedes_rank rank_mem)
      qed
    qed
    with ab rank_le[of ?L a] show "e \<in> measure (\<lambda>x. length ?L - rank ?L x)"
      by (simp add: diff_less_mono2)
  qed
  then show ?thesis by (rule wf_subset[OF wf_measure])
qed

lemma graph_inv_boot: "graph_inv boot_state"
  by (simp add: graph_inv_def boot_state_def zeroed_device_def links_ordered_def
        children_ordered_def)

lemma graph_inv_register:
  assumes inv: "graph_inv s" and st: "step (Register env d par nm) s = Some s'"
  shows "graph_inv s'"
proof -
  let ?L = "dpm_list s"
  let ?s0 = "upd_dev d (\<lambda>r. r\<lparr>parent := par, init_name := nm\<rparr>) s"
  from st have fresh: "d \<notin> set ?L" and parL: "\<forall>q. par = Some q \<longrightarrow> q \<in> set (devices_kset s)"
    and ok: "device_add env (Some d) ?s0 = Some (0, s')"
    by (auto split: if_splits option.splits)
  from device_add_registers[of d ?s0 env] ok have reg: "registered d ?s0 s'" by simp
  from inv fresh have kd: "klist_children (devs s d) = None" by (auto simp: graph_inv_def)
  have k0: "\<And>x. klist0 d ?s0 x = (if x = d then Some [] else klist_children (devs s x))"
    using kd by (simp add: klist0_def upd_dev_def)
  have p0: "parent (devs ?s0 d) = par" by (simp add: upd_dev_def)
  from inv parL fresh have pd: "par \<noteq> Some d" by (auto simp: graph_inv_def)
  from reg have lists: "devices_kset s' = devices_kset s @ [d]" "dpm_list s' = ?L @ [d]"
    "dlinks s' = dlinks s" "next_link s' = next_link s"
    by (simp_all add: registered_def)
  from reg p0 k0 pd have kl: "\<And>x. klist_children (devs s' x) =
        (if x = d then Some []
         else if par = Some x then map_option (\<lambda>cs. cs @ [d]) (klist_children (devs s x))
         else klist_children (devs s x))"
    by (auto simp: registered_def)
  show ?thesis
    unfolding graph_inv_def
  proof (intro conjI)
    from inv lists show "devices_kset s' = dpm_list s'" by (simp add: graph_inv_def)
    from inv lists fresh show "distinct (dpm_list s')" by (simp add: graph_inv_def)
    from inv lists kl show "\<forall>x. klist_children (devs s' x) \<noteq> None \<longrightarrow> x \<in> set (dpm_list s')"
      by (auto simp: graph_inv_def split: if_splits)
    from inv lists show "\<forall>link \<in> set (dlinks s'). supplier link \<in> set (dpm_list s')"
      by (simp add: graph_inv_def)
    from inv lists show "\<forall>link \<in> set (dlinks s'). addr link < next_link s'"
      by (simp add: graph_inv_def)
    from inv lists show "distinct (map (\<lambda>link. (consumer link, supplier link)) (dlinks s'))"
      by (simp add: graph_inv_def)
    show "links_ordered (dpm_list s') s'"
      unfolding links_ordered_def
    proof (intro ballI impI)
      fix link assume l: "link \<in> set (dlinks s')" and c: "consumer link \<in> set (dpm_list s')"
      from l lists inv have sup: "supplier link \<in> set ?L" by (simp add: graph_inv_def)
      show "precedes (dpm_list s') (supplier link) (consumer link)"
      proof (cases "consumer link = d")
        case True
        with sup lists show ?thesis by (simp add: precedes_snoc)
      next
        case False
        with c lists have "consumer link \<in> set ?L" by simp
        with l lists inv have "precedes ?L (supplier link) (consumer link)"
          by (simp add: graph_inv_def links_ordered_def)
        with lists show ?thesis by (simp add: precedes_append)
      qed
    qed
    show "children_ordered (dpm_list s') s'"
      unfolding children_ordered_def
    proof (intro allI impI ballI)
      fix x cs c assume k: "klist_children (devs s' x) = Some cs" and c: "c \<in> set cs"
      from k c kl[of x] have xd: "x \<noteq> d" by (auto split: if_splits)
      show "precedes (dpm_list s') x c"
      proof (cases "par = Some x")
        case True
        with k kl[of x] xd obtain cs0 where cs0: "klist_children (devs s x) = Some cs0"
          "cs = cs0 @ [d]" by auto
        show ?thesis
        proof (cases "c = d")
          case True
          from \<open>par = Some x\<close> parL inv have "x \<in> set ?L" by (simp add: graph_inv_def)
          with True lists show ?thesis by (simp add: precedes_snoc)
        next
          case False
          with c cs0 have "c \<in> set cs0" by simp
          with cs0 inv have "precedes ?L x c" by (auto simp: graph_inv_def children_ordered_def)
          with lists show ?thesis by (simp add: precedes_append)
        qed
      next
        case False
        with k kl[of x] xd have "klist_children (devs s x) = Some cs" by simp
        with c inv have "precedes ?L x c" by (auto simp: graph_inv_def children_ordered_def)
        with lists show ?thesis by (simp add: precedes_append)
      qed
    qed
  qed
qed

lemma depends_on_frame:
  "dlinks t = dlinks s \<Longrightarrow> \<forall>x. klist_children (devs t x) = klist_children (devs s x) \<Longrightarrow>
   depends_on t = depends_on s"
  by (simp add: depends_on_def)

lemma with_lists_same: "devices_kset t = xs \<Longrightarrow> dpm_list t = xs \<Longrightarrow> with_lists t xs = t"
  by (simp add: with_lists_def)

lemma edge_kept:
  assumes tm: "tail_moved D {c} xs ys" and e: "(b, a) \<in> D" and p: "precedes xs a b"
  shows "precedes ys a b"
proof (cases "(a, c) \<in> D\<^sup>*")
  case True
  with tm e precedes_mem[OF p] show ?thesis unfolding tail_moved_def by blast
next
  case False
  with tm p show ?thesis unfolding tail_moved_def by blast
qed

lemma graph_inv_add_link:
  assumes inv: "graph_inv s"
    and ok: "device_link_add env (Some c) (Some sp) fl s = Some (Inr a, s')"
  shows "graph_inv s'"
proof (cases "\<exists>link \<in> set (dlinks s). consumer link = c \<and> supplier link = sp")
  case True
  from device_link_add_existing[OF ok True] inv show ?thesis by simp
next
  case False
  let ?L = "dpm_list s"
  let ?D = "depends_on s"
  let ?s1 = "get_device (Some c) (get_device (Some sp) s)"
  from device_link_add_new[OF ok False] obtain s2 where
    r: "device_reorder_to_tail ?s1 c = Some s2"
    and s': "s' = s2\<lparr>dlinks := dlinks s2 @ [new_link c sp fl s], next_link := Suc (next_link s2)\<rparr>"
    and dep: "device_is_dependent s c sp = Some 0" and spL: "sp \<in> set ?L"
    by blast
  from inv have dist: "distinct ?L" and eq: "devices_kset s = ?L" by (simp_all add: graph_inv_def)
  have D1: "depends_on ?s1 = ?D" by (rule depends_on_frame) simp_all
  have wf: "wf ?D" by (rule graph_inv_wf[OF inv])
  have w1: "with_lists ?s1 ?L = ?s1" by (rule with_lists_same) (simp_all add: eq)
  from reorder_tail_moved[of ?s1 ?L c] wf D1 dist w1 obtain ys where
    r': "device_reorder_to_tail ?s1 c = Some (with_lists ?s1 ys)" and tm: "tail_moved ?D {c} ?L ys"
    by auto
  from r r' have s2: "s2 = with_lists ?s1 ys" by simp
  from tm have setys: "set ys = set ?L" and dys: "distinct ys" by (simp_all add: tail_moved_def)
  from is_dependent_value[OF wf, of c sp] dep have nodep: "(sp, c) \<notin> ?D\<^sup>*"
    by (simp split: if_splits)
  have fields: "devices_kset s' = ys" "dpm_list s' = ys"
    "dlinks s' = dlinks s @ [new_link c sp fl s]" "next_link s' = Suc (next_link s)"
    "\<And>x. klist_children (devs s' x) = klist_children (devs s x)"
    by (simp_all add: s' s2)
  have nl: "consumer (new_link c sp fl s) = c" "supplier (new_link c sp fl s) = sp"
    "addr (new_link c sp fl s) = next_link s"
    by (simp_all add: new_link_def)
  show ?thesis
    unfolding graph_inv_def
  proof (intro conjI)
    show "devices_kset s' = dpm_list s'" by (simp add: fields)
    show "distinct (dpm_list s')" by (simp add: fields dys)
    from inv show "\<forall>d. klist_children (devs s' d) \<noteq> None \<longrightarrow> d \<in> set (dpm_list s')"
      by (simp add: fields setys graph_inv_def)
    from inv spL show "\<forall>link \<in> set (dlinks s'). supplier link \<in> set (dpm_list s')"
      by (auto simp: fields setys graph_inv_def nl)
    from inv show "\<forall>link \<in> set (dlinks s'). addr link < next_link s'"
      by (auto simp: fields graph_inv_def nl less_SucI)
    from inv False show "distinct (map (\<lambda>link. (consumer link, supplier link)) (dlinks s'))"
      by (auto simp: fields graph_inv_def nl)
    show "links_ordered (dpm_list s') s'"
      unfolding links_ordered_def
    proof (intro ballI impI)
      fix link assume l: "link \<in> set (dlinks s')" and cin: "consumer link \<in> set (dpm_list s')"
      show "precedes (dpm_list s') (supplier link) (consumer link)"
      proof (cases "link \<in> set (dlinks s)")
        case True
        with cin inv have p: "precedes ?L (supplier link) (consumer link)"
          by (simp add: fields setys graph_inv_def links_ordered_def)
        from True have "(consumer link, supplier link) \<in> ?D" by (auto simp: depends_on_def)
        from edge_kept[OF tm this p] show ?thesis by (simp add: fields)
      next
        case False
        with l have link: "link = new_link c sp fl s" by (simp add: fields)
        with cin have cL: "c \<in> set ?L" by (simp add: fields setys nl)
        from tm nodep spL cL have "precedes ys sp c" unfolding tail_moved_def by blast
        with link show ?thesis by (simp add: fields nl)
      qed
    qed
    show "children_ordered (dpm_list s') s'"
      unfolding children_ordered_def
    proof (intro allI impI ballI)
      fix d cs x assume k: "klist_children (devs s' d) = Some cs" and x: "x \<in> set cs"
      then have k0: "klist_children (devs s d) = Some cs" by (simp add: fields)
      with x inv have p: "precedes ?L d x" by (auto simp: graph_inv_def children_ordered_def)
      from k0 x have "(x, d) \<in> ?D" by (auto simp: depends_on_def)
      from edge_kept[OF tm this p] show "precedes (dpm_list s') d x" by (simp add: fields)
    qed
  qed
qed

lemma graph_inv_step:
  assumes "graph_inv s" "step x s = Some s'"
  shows "graph_inv s'"
proof (cases x)
  case (Register env d par nm)
  with assms show ?thesis using graph_inv_register by blast
next
  case (AddLink env c sp fl)
  with assms(2) obtain a where "device_link_add env (Some c) (Some sp) fl s = Some (Inr a, s')"
    by (auto split: option.splits sum.splits prod.splits)
  from graph_inv_add_link[OF assms(1) this] show ?thesis .
qed

lemma graph_inv_run:
  assumes "graph_inv s" "run ops s = Some s'"
  shows "graph_inv s'"
  using assms
proof (induction ops arbitrary: s)
  case Nil
  then show ?case by simp
next
  case (Cons x ops)
  then obtain s1 where "step x s = Some s1" "run ops s1 = Some s'"
    by (auto split: option.splits)
  with Cons.IH graph_inv_step[OF Cons.prems(1)] show ?case by blast
qed

lemma link_add_returns:
  assumes inv: "graph_inv s"
  shows "\<exists>r. device_link_add env ca sa fl s = Some r"
proof (cases ca)
  case None
  then show ?thesis by (simp add: device_link_add_def)
next
  case ca: (Some c)
  show ?thesis
  proof (cases sa)
    case None
    with ca show ?thesis by (simp add: device_link_add_def)
  next
    case (Some sp)
    let ?s1 = "get_device (Some c) (get_device (Some sp) s)"
    from inv have dist: "distinct (dpm_list s)" and eq: "devices_kset s = dpm_list s"
      by (simp_all add: graph_inv_def)
    have wf: "wf (depends_on s)" by (rule graph_inv_wf[OF inv])
    have D1: "depends_on ?s1 = depends_on s" by (rule depends_on_frame) simp_all
    have w1: "with_lists ?s1 (dpm_list s) = ?s1" by (rule with_lists_same) (simp_all add: eq)
    from reorder_tail_moved[of ?s1 "dpm_list s" c] wf D1 dist w1
    obtain s2 where "device_reorder_to_tail ?s1 c = Some s2" by auto
    with ca Some is_dependent_value[OF wf, of c sp] show ?thesis
      by (simp add: device_link_add_def Let_def split: option.split)
  qed
qed

lemma distinct_map_filter_single:
  "distinct (map f xs) \<Longrightarrow> x \<in> set xs \<Longrightarrow> filter (\<lambda>y. f y = f x) xs = [x]"
proof (induction xs)
  case Nil
  then show ?case by simp
next
  case (Cons y ys)
  show ?case
  proof (cases "x = y")
    case True
    with Cons.prems have "f x \<notin> f ` set ys" by simp
    then have "\<forall>z \<in> set ys. f z \<noteq> f x" by (metis image_eqI)
    then have "filter (\<lambda>y. f y = f x) ys = []" by (simp add: filter_empty_conv)
    with True show ?thesis by simp
  next
    case False
    with Cons.prems have "x \<in> set ys" "f y \<noteq> f x" by auto
    with Cons show ?thesis by simp
  qed
qed

lemma find_filter_head: "filter P xs = x # rest \<Longrightarrow> find P xs = Some x"
  by (induction xs) (auto split: if_splits)

lemma register_env_ok:
  assumes "d \<notin> set (devices_kset s)" "d \<notin> set (dpm_list s)" "klist_children (devs s d) = None"
    and "case par of None \<Rightarrow> True
         | Some q \<Rightarrow> q \<in> set (devices_kset s) \<and> klist_children (devs s q) \<noteq> None"
  shows "\<exists>s'. step (Register env_ok d par (Some n)) s = Some s'
      \<and> devices_kset s' = devices_kset s @ [d] \<and> dpm_list s' = dpm_list s @ [d]
      \<and> dlinks s' = dlinks s
      \<and> (\<forall>x. klist_children (devs s' x) =
            (if x = d then Some []
             else if par = Some x then map_option (\<lambda>cs. cs @ [d]) (klist_children (devs s x))
             else klist_children (devs s x)))"
proof -
  let ?s0 = "upd_dev d (\<lambda>r. r\<lparr>parent := par, init_name := Some n\<rparr>) s"
  from assms have pd: "par \<noteq> Some d" by (auto split: option.splits)
  have "\<exists>s'. device_add env_ok (Some d) ?s0 = Some (0, s')"
    using assms pd unfolding device_add_parts add_from_parent_def add_from_sysfs_def add_from_devt_def
    by (auto simp: env_ok_def Let_def add_done_def upd_dev_def get_device_def kobject_add_def
          device_pm_add_def klist_add_tail_parent_def split: option.splits)
  then obtain s' where ok: "device_add env_ok (Some d) ?s0 = Some (0, s')" by blast
  from device_add_registers[of d ?s0 env_ok] ok have reg: "registered d ?s0 s'" by simp
  have k0: "\<And>x. klist0 d ?s0 x = (if x = d then Some [] else klist_children (devs s x))"
    using assms(3) by (simp add: klist0_def upd_dev_def)
  have p0: "parent (devs ?s0 d) = par" by (simp add: upd_dev_def)
  from reg p0 k0 pd have kl: "\<forall>x. klist_children (devs s' x) =
        (if x = d then Some []
         else if par = Some x then map_option (\<lambda>cs. cs @ [d]) (klist_children (devs s x))
         else klist_children (devs s x))"
    by (auto simp: registered_def)
  from assms ok have "step (Register env_ok d par (Some n)) s = Some s'"
    by (auto split: option.splits)
  with reg kl show ?thesis by (auto simp: registered_def)
qed

lemma ex_run: "\<exists>s. run ex_ops boot_state = Some s \<and> ex_shape s"
proof -
  have b: "devices_kset boot_state = []" "dpm_list boot_state = []" "dlinks boot_state = []"
    "\<And>x. klist_children (devs boot_state x) = None"
    by (simp_all add: boot_state_def zeroed_device_def)
  from register_env_ok[of 10 boot_state None "''a''"] b obtain s1 where
    s1: "step (Register env_ok 10 None (Some ''a'')) boot_state = Some s1"
    "devices_kset s1 = [10]" "dpm_list s1 = [10]" "dlinks s1 = []"
    "\<forall>x. klist_children (devs s1 x) = (if x = 10 then Some [] else None)"
    by auto
  from register_env_ok[of 11 s1 "Some 10" "''b''"] s1(2-5) obtain s2 where
    s2: "step (Register env_ok 11 (Some 10) (Some ''b'')) s1 = Some s2"
    "devices_kset s2 = [10, 11]" "dpm_list s2 = [10, 11]" "dlinks s2 = []"
    "\<forall>x. klist_children (devs s2 x) =
        (if x = 11 then Some [] else if x = 10 then Some [11] else None)"
    by auto
  from register_env_ok[of 12 s2 None "''c''"] s2(2-5) obtain s3 where
    s3: "step (Register env_ok 12 None (Some ''c'')) s2 = Some s3"
    "devices_kset s3 = [10, 11, 12]" "dpm_list s3 = [10, 11, 12]" "dlinks s3 = []"
    "\<forall>x. klist_children (devs s3 x) =
        (if x = 12 then Some [] else if x = 11 then Some [] else if x = 10 then Some [11] else None)"
    by auto
  from s1(1) s2(1) s3(1) have "run ex_ops boot_state = Some s3" by (simp add: ex_ops_def)
  moreover from s3(2-5) have "ex_shape s3" by (simp add: ex_shape_def)
  ultimately show ?thesis by blast
qed

lemma move_last_frame [simp]:
  "devs (devices_kset_move_last d s) = devs s" "dlinks (devices_kset_move_last d s) = dlinks s"
  "dpm_list (devices_kset_move_last d s) = dpm_list s"
  "devices_kset (devices_kset_move_last d s) = list_move_tail d (devices_kset s)"
  "next_link (devices_kset_move_last d s) = next_link s"
  "devs (device_pm_move_last d s) = devs s" "dlinks (device_pm_move_last d s) = dlinks s"
  "dpm_list (device_pm_move_last d s) = list_move_tail d (dpm_list s)"
  "devices_kset (device_pm_move_last d s) = devices_kset s"
  "next_link (device_pm_move_last d s) = next_link s"
  by (simp_all add: devices_kset_move_last_def device_pm_move_last_def)

lemma reorder_leaf:
  assumes "klist_children (devs t d) = Some []" "\<forall>l \<in> set (dlinks t). supplier l \<noteq> d"
    "d \<in> set (devices_kset t)" "d \<in> set (dpm_list t)"
  shows "device_reorder_to_tail t d = Some (device_pm_move_last d (devices_kset_move_last d t))"
proof -
  from assms(2) have "links_consumers t d = []"
    by (simp add: links_consumers_def filter_empty_conv)
  with assms(1,3,4) show ?thesis
    by (subst device_reorder_to_tail.simps)
       (simp add: Let_def device_is_registered_def device_pm_initialized_def links_consumers_def)
qed

lemma ex_link_add:
  assumes "ex_shape s"
  shows "\<exists>a s1. device_link_add lenv_ok (Some 10) (Some 12) 0 s = Some (Inr a, s1)
      \<and> devices_kset s1 = [12, 10, 11] \<and> dpm_list s1 = [12, 10, 11]
      \<and> map (\<lambda>l. (supplier l, consumer l)) (dlinks s1) = [(12, 10)]
      \<and> klist_children (devs s1 10) = Some [11] \<and> klist_children (devs s1 11) = Some []
      \<and> klist_children (devs s1 12) = Some []"
proof -
  from assms have sh: "devices_kset s = [10, 11, 12]" "dpm_list s = [10, 11, 12]" "dlinks s = []"
    "klist_children (devs s 10) = Some [11]" "klist_children (devs s 11) = Some []"
    "klist_children (devs s 12) = Some []"
    by (simp_all add: ex_shape_def)
  have d11: "device_is_dependent s 11 12 = Some 0"
    by (subst device_is_dependent.simps)
       (simp add: sh device_for_each_child_def links_consumers_def)
  have d10: "device_is_dependent s 10 12 = Some 0"
    by (subst device_is_dependent.simps)
       (simp add: sh d11 device_for_each_child_def links_consumers_def)
  let ?s1 = "get_device (Some 10) (get_device (Some 12) s)"
  let ?t = "device_pm_move_last 10 (devices_kset_move_last 10 ?s1)"
  let ?u = "device_pm_move_last 11 (devices_kset_move_last 11 ?t)"
  have r11: "device_reorder_to_tail ?t 11 = Some ?u"
    by (rule reorder_leaf) (simp_all add: sh list_move_tail_def)
  have r10: "device_reorder_to_tail ?s1 10 = Some ?u"
    by (subst device_reorder_to_tail.simps)
       (simp add: sh r11 Let_def device_is_registered_def device_pm_initialized_def
          links_consumers_def)
  have "device_link_add lenv_ok (Some 10) (Some 12) 0 s
          = Some (Inr (next_link s),
                  ?u\<lparr>dlinks := dlinks ?u @ [new_link 10 12 0 s], next_link := Suc (next_link ?u)\<rparr>)"
    by (simp add: device_link_add_def d10 r10 sh device_pm_initialized_def links_consumers_def
          lenv_ok_def Let_def new_link_def)
  then show ?thesis
    by (simp add: sh list_move_tail_def new_link_def)
qed

lemma run_append:
  "run (xs @ ys) t = (case run xs t of None \<Rightarrow> None | Some t' \<Rightarrow> run ys t')"
  by (induction xs arbitrary: t) (auto split: option.splits)

lemma ex_run_link:
  "\<exists>s. run (ex_ops @ [AddLink lenv_ok 10 12 0]) boot_state = Some s
       \<and> devices_kset s = [12, 10, 11] \<and> dpm_list s = [12, 10, 11]
       \<and> map (\<lambda>l. (supplier l, consumer l)) (dlinks s) = [(12, 10)]
       \<and> klist_children (devs s 10) = Some [11]"
proof -
  from ex_run obtain s0 where s0: "run ex_ops boot_state = Some s0" "ex_shape s0" by blast
  from ex_link_add[OF s0(2)] obtain a s where
    s: "device_link_add lenv_ok (Some 10) (Some 12) 0 s0 = Some (Inr a, s)"
    "devices_kset s = [12, 10, 11]" "dpm_list s = [12, 10, 11]"
    "map (\<lambda>l. (supplier l, consumer l)) (dlinks s) = [(12, 10)]"
    "klist_children (devs s 10) = Some [11]"
    by auto
  from s0(1) s(1) have "run (ex_ops @ [AddLink lenv_ok 10 12 0]) boot_state = Some s"
    by (simp add: run_append)
  with s(2-5) show ?thesis by (intro exI[of _ s]) simp
qed

lemma from_devt_unwound:
  assumes "devices_kset t = devices_kset s @ [d]" "d \<notin> set (devices_kset s)"
    "dpm_list t = dpm_list s @ [d]" "d \<notin> set (dpm_list s)" "dlinks t = dlinks s"
    "\<forall>x. kref (devs t x) = kref (devs s x) + (if x = d then 1 else 0) + (if par = Some x then 1 else 0)"
    "\<forall>x. x \<noteq> d \<longrightarrow> klist_children (devs t x) = klist_children (devs s x)"
  shows "res_ok d s (add_from_devt env d par t)"
  unfolding add_from_devt_def using assms
  by (simp add: add_DevAttrError_unwound split: option.split)

lemma from_sysfs_unwound:
  assumes "devices_kset t = devices_kset s @ [d]" "d \<notin> set (devices_kset s)"
    "dpm_list t = dpm_list s" "d \<notin> set (dpm_list s)" "dlinks t = dlinks s"
    "\<forall>x. kref (devs t x) = kref (devs s x) + (if x = d then 1 else 0) + (if par = Some x then 1 else 0)"
    "\<forall>x. x \<noteq> d \<longrightarrow> klist_children (devs t x) = klist_children (devs s x)"
  shows "res_ok d s (add_from_sysfs env d par t)"
  unfolding add_from_sysfs_def using assms
  by (simp add: add_attrError_unwound from_devt_unwound)

lemma from_parent_unwound:
  assumes "devices_kset t = devices_kset s" "d \<notin> set (devices_kset s)"
    "dpm_list t = dpm_list s" "d \<notin> set (dpm_list s)" "dlinks t = dlinks s"
    "\<forall>x. kref (devs t x) = kref (devs s x) + (if x = d then 1 else 0)"
    "\<forall>x. x \<noteq> d \<longrightarrow> klist_children (devs t x) = klist_children (devs s x)"
  shows "res_ok d s (add_from_parent env d t)"
  unfolding add_from_parent_def using assms
  by (simp add: add_parent_error_unwound from_sysfs_unwound)

lemma device_add_unwinds:
  assumes "d \<notin> set (devices_kset s)" "d \<notin> set (dpm_list s)"
  shows "res_ok d s (device_add env (Some d) s)"
proof -
  let ?s1 = "get_device (Some d) s"
  let ?s2 = "if klist_children (devs ?s1 d) = None
             then upd_dev d (\<lambda>r. r\<lparr>klist_children := Some []\<rparr>) ?s1 else ?s1"
  let ?s3 = "case init_name (devs ?s2 d) of
               Some n \<Rightarrow> upd_dev d (\<lambda>r. r\<lparr>kobj_name := Some n, init_name := None\<rparr>) ?s2
             | None \<Rightarrow> ?s2"
  let ?s4 = "if kobj_name (devs ?s3 d) = None \<and> bus_dev_name env \<noteq> None
             then upd_dev d (\<lambda>r. r\<lparr>kobj_name := bus_dev_name env\<rparr>) ?s3 else ?s3"
  have f1: "devices_kset ?s1 = devices_kset s \<and> dpm_list ?s1 = dpm_list s \<and> dlinks ?s1 = dlinks s
      \<and> (\<forall>x. kref (devs ?s1 x) = kref (devs s x) + (if x = d then 1 else 0))
      \<and> (\<forall>x. x \<noteq> d \<longrightarrow> klist_children (devs ?s1 x) = klist_children (devs s x))"
    by auto
  have f2: "devices_kset ?s2 = devices_kset s \<and> dpm_list ?s2 = dpm_list s \<and> dlinks ?s2 = dlinks s
      \<and> (\<forall>x. kref (devs ?s2 x) = kref (devs s x) + (if x = d then 1 else 0))
      \<and> (\<forall>x. x \<noteq> d \<longrightarrow> klist_children (devs ?s2 x) = klist_children (devs s x))"
    by auto
  have f3: "devices_kset ?s3 = devices_kset ?s2 \<and> dpm_list ?s3 = dpm_list ?s2
      \<and> dlinks ?s3 = dlinks ?s2
      \<and> (\<forall>x. kref (devs ?s3 x) = kref (devs ?s2 x))
      \<and> (\<forall>x. klist_children (devs ?s3 x) = klist_children (devs ?s2 x))"
    by (simp split: option.split)
  have f4: "devices_kset ?s4 = devices_kset ?s3 \<and> dpm_list ?s4 = dpm_list ?s3
      \<and> dlinks ?s4 = dlinks ?s3
      \<and> (\<forall>x. kref (devs ?s4 x) = kref (devs ?s3 x))
      \<and> (\<forall>x. klist_children (devs ?s4 x) = klist_children (devs ?s3 x))"
    by simp
  have a: "unwound d s (snd (add_done d (- ENOMEM) ?s1))"
    if "klist_children (devs ?s1 d) = None"
    by (rule add_done_unwound) (use that f1 in simp_all)
  have b: "unwound d s (snd (add_name_error d (- EINVAL) ?s4))"
    by (rule add_name_error_unwound) (use f2 f3 f4 in presburger)+
  have c: "res_ok d s (add_from_parent env d ?s4)"
    by (rule from_parent_unwound) (use f2 f3 f4 assms in presburger)+
  show ?thesis
    unfolding device_add_parts Let_def using a b c by simp
qed

lemma ex_state_reachable:
  "run (ex_ops @ [AddLink lenv_ok 12 11 0]) boot_state = Some (ex_state DL_STATE_DORMANT)"
proof -
  let ?d0 = "\<lparr>parent = None, klist_children = None, kref = 1, links_status = DL_DEV_NO_DRIVER,
             init_name = None, kobj_name = None\<rparr>"
  let ?s1 = "\<lparr>devs = (\<lambda>_. ?d0)(10 := ?d0\<lparr>klist_children := Some [], kobj_name := Some ''a''\<rparr>),
             dlinks = [], next_link = 0, devices_kset = [10], dpm_list = [10]\<rparr>"
  let ?s2 = "\<lparr>devs = (\<lambda>_. ?d0)
               (10 := ?d0\<lparr>klist_children := Some [11], kref := 2, kobj_name := Some ''a''\<rparr>,
                11 := ?d0\<lparr>parent := Some 10, klist_children := Some [], kref := 2,
                          kobj_name := Some ''b''\<rparr>),
             dlinks = [], next_link = 0, devices_kset = [10, 11], dpm_list = [10, 11]\<rparr>"
  let ?s3 = "\<lparr>devs = (\<lambda>_. ?d0)
               (10 := ?d0\<lparr>klist_children := Some [11], kref := 2, kobj_name := Some ''a''\<rparr>,
                11 := ?d0\<lparr>parent := Some 10, klist_children := Some [], kref := 2,
                          kobj_name := Some ''b''\<rparr>,
                12 := ?d0\<lparr>klist_children := Some [], kobj_name := Some ''c''\<rparr>),
             dlinks = [], next_link = 0, devices_kset = [10, 11, 12], dpm_list = [10, 11, 12]\<rparr>"
  have b: "boot_state = \<lparr>devs = (\<lambda>_. ?d0), dlinks = [], next_link = 0, devices_kset = [],
             dpm_list = []\<rparr>"
    by (simp add: boot_state_def zeroed_device_def)
  have 1: "step (Register env_ok 10 None (Some ''a'')) boot_state = Some ?s1"
    unfolding b step.simps device_add_parts add_from_parent_def add_from_sysfs_def add_from_devt_def
    by (simp add: env_ok_def Let_def add_done_def upd_dev_def get_device_def put_device_def
          kobject_add_def device_pm_add_def klist_add_tail_parent_def fun_eq_iff)
  have 2: "step (Register env_ok 11 (Some 10) (Some ''b'')) ?s1 = Some ?s2"
    unfolding step.simps device_add_parts add_from_parent_def add_from_sysfs_def add_from_devt_def
    by (simp add: env_ok_def Let_def add_done_def upd_dev_def get_device_def put_device_def
          kobject_add_def device_pm_add_def klist_add_tail_parent_def fun_eq_iff)
  have 3: "step (Register env_ok 12 None (Some ''c'')) ?s2 = Some ?s3"
    unfolding step.simps device_add_parts add_from_parent_def add_from_sysfs_def add_from_devt_def
    by (simp add: env_ok_def Let_def add_done_def upd_dev_def get_device_def put_device_def
          kobject_add_def device_pm_add_def klist_add_tail_parent_def fun_eq_iff)
  define s3 where "s3 = ?s3"
  have f3: "dlinks s3 = []" "dpm_list s3 = [10, 11, 12]" "devices_kset s3 = [10, 11, 12]"
    "klist_children (devs s3 12) = Some []" "next_link s3 = 0"
    "links_status (devs s3 11) = DL_DEV_NO_DRIVER" "links_status (devs s3 12) = DL_DEV_NO_DRIVER"
    by (simp_all add: s3_def)
  have dep: "device_is_dependent s3 12 11 = Some 0"
    by (subst device_is_dependent.simps)
       (simp add: f3 device_for_each_child_def links_consumers_def)
  define s3g where "s3g = get_device (Some 12) (get_device (Some 11) s3)"
  have g3: "dlinks s3g = []" "dpm_list s3g = [10, 11, 12]" "devices_kset s3g = [10, 11, 12]"
    "klist_children (devs s3g 12) = Some []"
    by (simp_all add: s3g_def f3)
  have "device_reorder_to_tail s3g 12 = Some (device_pm_move_last 12 (devices_kset_move_last 12 s3g))"
    by (rule reorder_leaf) (simp_all add: g3)
  also have "device_pm_move_last 12 (devices_kset_move_last 12 s3g) = s3g"
    by (simp add: devices_kset_move_last_def device_pm_move_last_def list_move_tail_def g3)
  finally have re: "device_reorder_to_tail s3g 12 = Some s3g" .
  have fin: "s3g\<lparr>dlinks := dlinks s3g @ [new_link 12 11 0 s3], next_link := Suc (next_link s3g)\<rparr>
               = ex_state DL_STATE_DORMANT"
    by (simp add: s3g_def s3_def ex_state_def b new_link_def initial_link_status_def
          get_device_def upd_dev_def fun_eq_iff)
  have "device_link_add lenv_ok (Some 12) (Some 11) 0 s3 = Some (Inr 0, ex_state DL_STATE_DORMANT)"
    using dep re fin unfolding device_link_add_def s3g_def
    by (simp add: f3 Let_def lenv_ok_def device_pm_initialized_def links_consumers_def
          new_link_def)
  then have 4: "step (AddLink lenv_ok 12 11 0) s3 = Some (ex_state DL_STATE_DORMANT)"
    by simp
  from 1 2 3 4 show ?thesis by (simp add: ex_ops_def s3_def)
qed

section \<open>The claims\<close>

text \<open>
  C9.  For every device \<open>d\<close>, \<^verbatim>\<open>device_link_add(d, d, flags)\<close> fails, whatever the flags,
  the outside world and the state: when the flags are valid and \<open>d\<close> is on \<open>dpm_list\<close> it is
  \<^verbatim>\<open>device_is_dependent(d, d)\<close>, which is 1, that makes it fail.  The state is unchanged.
\<close>

theorem self_link_rejected: "device_link_add env (Some d) (Some d) fl s =
     Some (Inl (if fl AND DL_FLAG_STATELESS \<noteq> 0 \<and> fl AND DL_FLAG_AUTOREMOVE \<noteq> 0 then InvalidFlags
                else if \<not> device_pm_initialized s d then SupplierNotReady
                else DependencyCycle), s)"
  by (simp add: device_link_add_def is_dependent_self)

theorem self_link_rejected_witness:
  "device_link_add lenv_ok (Some 11) (Some 11) 0 (ex_state DL_STATE_DORMANT) =
     Some (Inl DependencyCycle, ex_state DL_STATE_DORMANT)"
  using self_link_rejected [of lenv_ok 11 0 "ex_state DL_STATE_DORMANT"]
  by (simp add: DL_FLAG_STATELESS_def device_pm_initialized_def ex_state_def)

text \<open>
  C3.  A successful \<^verbatim>\<open>device_link_add(consumer, supplier, flags)\<close> that finds no link
  between the two devices appends one link object, the one it returns, and the status of
  that object is the one the specification's table gives for the flags and for the
  \<^verbatim>\<open>links.status\<close> of supplier and consumer: NONE for a STATELESS link.
\<close>

theorem initial_link_state:
  assumes "device_link_add env (Some c) (Some sp) fl s = Some (Inr a, s')"
    and "\<not> (\<exists>link \<in> set (dlinks s). consumer link = c \<and> supplier link = sp)"
  shows "\<exists>link. dlinks s' = dlinks s @ [link] \<and> addr link = a
           \<and> consumer link = c \<and> supplier link = sp \<and> flags link = fl
           \<and> status link =
               spec_initial_state fl (links_status (devs s sp)) (links_status (devs s c))"
proof -
  from device_link_add_new[OF assms] obtain s2 where
    r: "device_reorder_to_tail (get_device (Some c) (get_device (Some sp) s)) c = Some s2"
    and s': "s' = s2\<lparr>dlinks := dlinks s2 @ [new_link c sp fl s], next_link := Suc (next_link s2)\<rparr>"
    and a: "a = next_link s" by blast
  from reorder_frame[OF r] have "dlinks s2 = dlinks s" by simp
  with s' a show ?thesis
    by (simp add: new_link_def initial_link_status_spec)
qed

theorem initial_link_state_witness:
  "\<exists>a s'. device_link_add lenv_ok (Some 12) (Some 10) 0 (ex_state DL_STATE_DORMANT) = Some (Inr a, s')
     \<and> \<not> (\<exists>link \<in> set (dlinks (ex_state DL_STATE_DORMANT)). consumer link = 12 \<and> supplier link = 10)
     \<and> (\<exists>link. dlinks s' = dlinks (ex_state DL_STATE_DORMANT) @ [link] \<and> addr link = a
            \<and> status link = DL_STATE_DORMANT)"
proof -
  let ?s = "ex_state DL_STATE_DORMANT"
  have fresh: "\<not> (\<exists>link \<in> set (dlinks ?s). consumer link = 12 \<and> supplier link = 10)"
    by simp
  have "\<exists>s2. device_reorder_to_tail (get_device (Some 12) (get_device (Some 10) ?s)) 12 = Some s2"
    by (rule ex_reorder_12 [where st = DL_STATE_DORMANT]) simp_all
  then obtain s2 where
    "device_reorder_to_tail (get_device (Some 12) (get_device (Some 10) ?s)) 12 = Some s2"
    by blast
  then have "\<exists>a s'. device_link_add lenv_ok (Some 12) (Some 10) 0 ?s = Some (Inr a, s')"
    by (simp add: device_link_add_def ex_is_dependent_12 links_consumers_def
          device_pm_initialized_def lenv_ok_def Let_def)
  then obtain a s' where
    ok: "device_link_add lenv_ok (Some 12) (Some 10) 0 ?s = Some (Inr a, s')"
    by blast
  from initial_link_state [OF ok fresh] ok fresh show ?thesis
    by (auto simp: spec_initial_state_def)
qed

text \<open>
  C10.  When \<^verbatim>\<open>device_link_add\<close> succeeds and a link between the two devices exists
  already, it returns that link and the state is the one it was called in: both ordering
  lists are unchanged, so the move to the tail happens only when a link is created.
\<close>

theorem existing_link_no_reorder:
  assumes "device_link_add env (Some c) (Some sp) fl s = Some (Inr a, s')"
    and "\<exists>link \<in> set (dlinks s). consumer link = c \<and> supplier link = sp"
  shows "devices_kset s' = devices_kset s \<and> dpm_list s' = dpm_list s \<and> s' = s
         \<and> (\<exists>link \<in> set (dlinks s). addr link = a \<and> consumer link = c \<and> supplier link = sp)"
  using device_link_add_existing[OF assms] by simp

theorem existing_link_no_reorder_witness:
  "device_link_add lenv_ok (Some 12) (Some 11) 0 (ex_state DL_STATE_DORMANT)
      = Some (Inr 0, ex_state DL_STATE_DORMANT)
   \<and> (\<exists>link \<in> set (dlinks (ex_state DL_STATE_DORMANT)). consumer link = 12 \<and> supplier link = 11)
   \<and> devices_kset (ex_state DL_STATE_DORMANT) = [10, 11, 12]"
proof -
  let ?s = "ex_state DL_STATE_DORMANT"
  have ex: "\<exists>link \<in> set (dlinks ?s). consumer link = 12 \<and> supplier link = 11"
    by simp
  have ok: "device_link_add lenv_ok (Some 12) (Some 11) 0 ?s = Some (Inr 0, ?s)"
    by (simp add: device_link_add_def ex_is_dependent_12 device_pm_initialized_def
          links_consumers_def)
  from existing_link_no_reorder [OF ok ex] ok ex show ?thesis
    by simp
qed

text \<open>
  C5.  \<^verbatim>\<open>device_links_driver_bound(d)\<close> sets \<^verbatim>\<open>d->links.status\<close> to DRIVER_BOUND, and it
  changes nothing of a link object but its status: a link that is not STATELESS with
  supplier \<open>d\<close> goes from DORMANT to AVAILABLE, one with consumer \<open>d\<close> from CONSUMER_PROBE
  to ACTIVE (no link has \<open>d\<close> at both ends, see C9), and STATELESS links and links of
  other devices stay as they are.
\<close>

theorem driver_bound_transitions:
  "links_status (devs (device_links_driver_bound d s) d) = DL_DEV_DRIVER_BOUND
   \<and> length (dlinks (device_links_driver_bound d s)) = length (dlinks s)
   \<and> (\<forall>i < length (dlinks s).
         let link = dlinks s ! i; link' = dlinks (device_links_driver_bound d s) ! i in
           link' = link\<lparr>status := status link'\<rparr>
           \<and> (\<not> stateless link \<and> supplier link = d \<and> consumer link \<noteq> d
                \<and> status link = DL_STATE_DORMANT \<longrightarrow> status link' = DL_STATE_AVAILABLE)
           \<and> (\<not> stateless link \<and> consumer link = d
                \<and> status link = DL_STATE_CONSUMER_PROBE \<longrightarrow> status link' = DL_STATE_ACTIVE)
           \<and> (stateless link \<or> (supplier link \<noteq> d \<and> consumer link \<noteq> d) \<longrightarrow> link' = link))"
  by (auto simp: device_links_driver_bound_def Let_def stateless_def)

theorem driver_bound_transitions_witness:
  "links_status (devs (device_links_driver_bound 11 (ex_state DL_STATE_DORMANT)) 11) = DL_DEV_DRIVER_BOUND
   \<and> status (dlinks (device_links_driver_bound 11 (ex_state DL_STATE_DORMANT)) ! 0) = DL_STATE_AVAILABLE
   \<and> status (dlinks (device_links_driver_bound 12 (ex_state DL_STATE_CONSUMER_PROBE)) ! 0) = DL_STATE_ACTIVE"
  using driver_bound_transitions [of 11 "ex_state DL_STATE_DORMANT"]
    driver_bound_transitions [of 12 "ex_state DL_STATE_CONSUMER_PROBE"]
  by (simp add: stateless_def Let_def DL_FLAG_STATELESS_def)

text \<open>
  C6.  \<^verbatim>\<open>device_links_check_suppliers(d)\<close> sets \<^verbatim>\<open>d->links.status\<close> to PROBING.  If one
  of the links to the suppliers of \<open>d\<close> that is not STATELESS is not AVAILABLE, the result
  is \<^verbatim>\<open>-EPROBE_DEFER\<close> and every link to a supplier of \<open>d\<close> that is in CONSUMER_PROBE is
  back in AVAILABLE, the others being as before; otherwise the result is 0 and each of
  these links that is not STATELESS is in CONSUMER_PROBE.
\<close>

theorem check_suppliers_transitions:
  assumes "device_links_check_suppliers d s = (ret, s')"
  shows "links_status (devs s' d) = DL_DEV_PROBING
    \<and> (if \<exists>link \<in> set (links_suppliers s d). \<not> stateless link \<and> status link \<noteq> DL_STATE_AVAILABLE
        then ret = - EPROBE_DEFER
             \<and> dlinks s' = map (\<lambda>link. if consumer link = d \<and> status link = DL_STATE_CONSUMER_PROBE
                                        then link\<lparr>status := DL_STATE_AVAILABLE\<rparr> else link) (dlinks s)
        else ret = 0
             \<and> dlinks s' = map (\<lambda>link. if consumer link = d \<and> \<not> stateless link
                                        then link\<lparr>status := DL_STATE_CONSUMER_PROBE\<rparr> else link) (dlinks s))"
proof (cases "\<exists>link \<in> set (links_suppliers s d). \<not> stateless link \<and> status link \<noteq> DL_STATE_AVAILABLE")
  case True
  then have "\<exists>link \<in> set (dlinks s). consumer link = d \<and> \<not> stateless link \<and> status link \<noteq> DL_STATE_AVAILABLE"
    by (auto simp: links_suppliers_def)
  from check_suppliers_loop_defer[OF this, of "[]"] assms True show ?thesis
    by (auto simp: device_links_check_suppliers_def device_links_missing_supplier_def)
next
  case False
  then have "\<forall>link \<in> set (dlinks s). consumer link = d \<and> \<not> stateless link \<longrightarrow> status link = DL_STATE_AVAILABLE"
    by (auto simp: links_suppliers_def)
  from check_suppliers_loop_ok[OF this, of "[]"] assms False show ?thesis
    by (auto simp: device_links_check_suppliers_def)
qed

theorem check_suppliers_transitions_witness:
  "(\<exists>s'. device_links_check_suppliers 12 (ex_state DL_STATE_DORMANT) = (- EPROBE_DEFER, s')
         \<and> links_status (devs s' 12) = DL_DEV_PROBING
         \<and> dlinks s' = dlinks (ex_state DL_STATE_DORMANT))
   \<and> (\<exists>s'. device_links_check_suppliers 12 (ex_state DL_STATE_AVAILABLE) = (0, s')
         \<and> links_status (devs s' 12) = DL_DEV_PROBING
         \<and> map status (dlinks s') = [DL_STATE_CONSUMER_PROBE])"
proof -
  obtain r1 s1 where a: "device_links_check_suppliers 12 (ex_state DL_STATE_DORMANT) = (r1, s1)"
    by (cases "device_links_check_suppliers 12 (ex_state DL_STATE_DORMANT)")
  obtain r2 s2 where b: "device_links_check_suppliers 12 (ex_state DL_STATE_AVAILABLE) = (r2, s2)"
    by (cases "device_links_check_suppliers 12 (ex_state DL_STATE_AVAILABLE)")
  from check_suppliers_transitions [OF a] check_suppliers_transitions [OF b] a b
  show ?thesis
    by (simp add: links_suppliers_def stateless_def DL_FLAG_STATELESS_def)
qed

text \<open>
  C7.  If \<^verbatim>\<open>device_add\<close> returns an error for a device that was on neither ordering list
  and among the children of no device, then afterwards the device is on neither ordering
  list (both lists are as before the call), it is among the children of no device (the
  children of every other device are as before and its own \<^verbatim>\<open>dev->p\<close> is NULL), the links
  are as before, and every reference count is what it was before the call: the reference
  to the parent has been put.
\<close>

theorem failed_registration_unwound:
  assumes "device_add env (Some d) s = Some (error, s')" and "error \<noteq> 0"
    and "d \<notin> set (devices_kset s)" and "d \<notin> set (dpm_list s)"
    and "\<forall>q cs. klist_children (devs s q) = Some cs \<longrightarrow> d \<notin> set cs"
  shows "d \<notin> set (devices_kset s') \<and> d \<notin> set (dpm_list s')
    \<and> devices_kset s' = devices_kset s \<and> dpm_list s' = dpm_list s \<and> dlinks s' = dlinks s
    \<and> (\<forall>q cs. klist_children (devs s' q) = Some cs \<longrightarrow> d \<notin> set cs)
    \<and> (\<forall>x. x \<noteq> d \<longrightarrow> klist_children (devs s' x) = klist_children (devs s x))
    \<and> klist_children (devs s' d) = None
    \<and> (\<forall>x. kref (devs s' x) = kref (devs s x))"
proof -
  from device_add_unwinds[OF assms(3,4), of env] assms(1,2) have u: "unwound d s s'"
    by simp
  have "\<And>q cs. klist_children (devs s' q) = Some cs \<Longrightarrow> d \<notin> set cs"
  proof -
    fix q cs assume a: "klist_children (devs s' q) = Some cs"
    with u have "q \<noteq> d" by (auto simp: unwound_def)
    with u a have "klist_children (devs s q) = Some cs" by (simp add: unwound_def)
    with assms(5) show "d \<notin> set cs" by blast
  qed
  with u assms(3,4) show ?thesis by (simp add: unwound_def)
qed

theorem failed_registration_unwound_witness:
  "\<exists>s'. device_add (env_ok\<lparr>bus_add_device_ret := - 5\<rparr>) (Some 13)
            (upd_dev 13 (\<lambda>r. r\<lparr>parent := Some 10, init_name := Some ''d''\<rparr>) (ex_state DL_STATE_DORMANT))
          = Some (- 5, s')
        \<and> devices_kset s' = [10, 11, 12] \<and> dpm_list s' = [10, 11, 12]
        \<and> klist_children (devs s' 10) = Some [11] \<and> klist_children (devs s' 13) = None
        \<and> kref (devs s' 10) = kref (devs (ex_state DL_STATE_DORMANT) 10)"
proof -
  let ?s = "upd_dev 13 (\<lambda>r. r\<lparr>parent := Some 10, init_name := Some ''d''\<rparr>) (ex_state DL_STATE_DORMANT)"
  have k13: "klist_children (devs (ex_state DL_STATE_DORMANT) 13) = None"
    by (simp add: ex_state_def boot_state_def zeroed_device_def)
  have "\<exists>s'. device_add (env_ok\<lparr>bus_add_device_ret := - 5\<rparr>) (Some 13) ?s = Some (- 5, s')"
    using k13
    by (simp add: device_add_def Let_def env_ok_def add_attrError_def add_parent_error_def
          add_name_error_def add_done_def get_device_def put_device_def upd_dev_def kobject_add_def
          kobject_del_def)
  then obtain s' where ok: "device_add (env_ok\<lparr>bus_add_device_ret := - 5\<rparr>) (Some 13) ?s = Some (- 5, s')"
    by blast
  have f: "13 \<notin> set (devices_kset ?s)" "13 \<notin> set (dpm_list ?s)"
    "\<forall>q cs. klist_children (devs ?s q) = Some cs \<longrightarrow> 13 \<notin> set cs"
    using ex_fresh_13[of DL_STATE_DORMANT] by (auto simp: upd_dev_def)
  from failed_registration_unwound [OF ok _ f] ok show ?thesis
    by (simp add: upd_dev_def)
qed

text \<open>
  C4.  \<^verbatim>\<open>device_del\<close> passes through these states, in this order: the node has left
  the children of its parent, and nothing else has changed; the node has left \<open>dpm_list\<close>,
  with every link still there; the links that have the node at either end are gone, with
  the node still on the list of \<^verbatim>\<open>devices_kset\<close>; the node has left that list, with the
  reference counts as the purge left them; the reference to the parent has been put.
  So the order of the specification holds of the list of \<^verbatim>\<open>devices_kset\<close>, while the node
  leaves \<open>dpm_list\<close>, the other half of the Ordering List, before its links are purged.
\<close>

theorem unregister_order:
  assumes "parent (devs s d) = None \<or> klist_children (devs s d) \<noteq> None"
  shows "\<exists>s1 s2 s3 s4 s5.
      device_del_trace d s = Some [s1, s2, s3, s4, s5] \<and> device_del d s = Some s5
    \<and> (\<forall>q. parent (devs s d) = Some q \<longrightarrow>
            klist_children (devs s1 q) = map_option (removeAll d) (klist_children (devs s q)))
    \<and> dpm_list s1 = dpm_list s \<and> dlinks s1 = dlinks s \<and> devices_kset s1 = devices_kset s
    \<and> dpm_list s2 = removeAll d (dpm_list s) \<and> dlinks s2 = dlinks s
    \<and> devices_kset s2 = devices_kset s
    \<and> dlinks s3 = filter (\<lambda>link. consumer link \<noteq> d \<and> supplier link \<noteq> d) (dlinks s)
    \<and> devices_kset s3 = devices_kset s \<and> dpm_list s3 = removeAll d (dpm_list s)
    \<and> devices_kset s4 = removeAll d (devices_kset s) \<and> dlinks s4 = dlinks s3
    \<and> dpm_list s4 = dpm_list s3 \<and> (\<forall>x. kref (devs s4 x) = kref (devs s3 x))
    \<and> (\<forall>x. kref (devs s5 x) = kref (devs s4 x) - (if parent (devs s d) = Some x then 1 else 0))
    \<and> devices_kset s5 = devices_kset s4 \<and> dpm_list s5 = dpm_list s4 \<and> dlinks s5 = dlinks s4
    \<and> (\<forall>x. klist_children (devs s5 x) = klist_children (devs s1 x))"
proof -
  let ?par = "parent (devs s d)"
  let ?s1 = "case ?par of None \<Rightarrow> s | Some q \<Rightarrow> klist_del_parent d q s"
  let ?s2 = "device_pm_remove d ?s1"
  let ?s3 = "device_links_purge d ?s2"
  let ?s4 = "kobject_del d ?s3"
  let ?s5 = "put_device ?par ?s4"
  have tr: "device_del_trace d s = Some [?s1, ?s2, ?s3, ?s4, ?s5]"
    using assms by (auto simp: device_del_trace_def Let_def)
  have f1: "dpm_list ?s1 = dpm_list s \<and> dlinks ?s1 = dlinks s \<and> devices_kset ?s1 = devices_kset s"
    by (simp split: option.splits)
  have k1: "\<forall>q. ?par = Some q \<longrightarrow>
            klist_children (devs ?s1 q) = map_option (removeAll d) (klist_children (devs s q))"
    by simp
  have f3: "dlinks ?s3 = filter (\<lambda>link. consumer link \<noteq> d \<and> supplier link \<noteq> d) (dlinks s)"
    using f1 by (simp add: purge_dlinks)
  have l3: "devices_kset ?s3 = devices_kset s \<and> dpm_list ?s3 = removeAll d (dpm_list s)"
    using f1 purge_lists[of d ?s2] by simp
  have k5: "\<forall>x. klist_children (devs ?s5 x) = klist_children (devs ?s1 x)"
    using purge_lists[of d ?s2] by simp
  have l4: "devices_kset ?s4 = removeAll d (devices_kset s) \<and> dpm_list ?s4 = dpm_list ?s3"
    using l3 by simp
  show ?thesis
    apply (rule exI[of _ ?s1], rule exI[of _ ?s2], rule exI[of _ ?s3], rule exI[of _ ?s4],
        rule exI[of _ ?s5])
    using tr f1 k1 f3 l3 k5 l4 by (simp add: device_del_def)
qed

theorem unregister_order_witness:
  "(parent (devs (ex_state DL_STATE_DORMANT) 11) = None
      \<or> klist_children (devs (ex_state DL_STATE_DORMANT) 11) \<noteq> None)
   \<and> (\<exists>s1 s2 s3 s4 s5.
        device_del_trace 11 (ex_state DL_STATE_DORMANT) = Some [s1, s2, s3, s4, s5]
      \<and> klist_children (devs s1 10) = Some [] \<and> dpm_list s1 = [10, 11, 12]
      \<and> dpm_list s2 = [10, 12] \<and> length (dlinks s2) = 1 \<and> devices_kset s2 = [10, 11, 12]
      \<and> dlinks s3 = [] \<and> devices_kset s3 = [10, 11, 12]
      \<and> devices_kset s4 = [10, 12]
      \<and> kref (devs s5 10) = kref (devs s4 10) - 1)"
proof -
  have h: "parent (devs (ex_state DL_STATE_DORMANT) 11) = None
      \<or> klist_children (devs (ex_state DL_STATE_DORMANT) 11) \<noteq> None"
    by simp
  from unregister_order [OF h] obtain s1 s2 s3 s4 s5 where
    "device_del_trace 11 (ex_state DL_STATE_DORMANT) = Some [s1, s2, s3, s4, s5]
      \<and> klist_children (devs s1 10) = Some [] \<and> dpm_list s1 = [10, 11, 12]
      \<and> dpm_list s2 = [10, 12] \<and> length (dlinks s2) = 1 \<and> devices_kset s2 = [10, 11, 12]
      \<and> dlinks s3 = [] \<and> devices_kset s3 = [10, 11, 12]
      \<and> devices_kset s4 = [10, 12]
      \<and> kref (devs s5 10) = kref (devs s4 10) - 1"
    by (auto simp: ex_parent_11)
  with h show ?thesis by blast
qed

text \<open>
  C4 as the specification has it fails on the code: when device 11 of the example is
  deleted, the trace has a state in which the link from 11 to 12 is still there and 11 is
  no longer on \<open>dpm_list\<close>.
\<close>

theorem unregister_order_counterexample:
  "map_option (purge_precedes_removal 11) (device_del_trace 11 (ex_state DL_STATE_DORMANT))
     = Some False"
  using purge_lists [of 11 "device_pm_remove 11 (klist_del_parent 11 10 (ex_state DL_STATE_DORMANT))"]
  by (simp add: device_del_trace_def Let_def purge_precedes_removal_def ex_parent_11 purge_dlinks)

text \<open>
  C1.  After every sequence of successful registrations and link additions, started where
  every device is initialised and there is no link, both ordering lists respect the graph.
  Neither \<^verbatim>\<open>devices_kset\<close> nor \<^verbatim>\<open>dpm_list\<close> holds a device twice.  The supplier of every
  link is on each list, and if the consumer is on the list too (\<^verbatim>\<open>device_link_add\<close> accepts
  a consumer that is not registered yet), the position of the supplier is smaller than the
  position of the consumer.  Every device with a child is on each list together with the
  child, at a smaller position than the child.  Positions are counted from the head of the
  list by \<^const>\<open>rank\<close>.
\<close>

theorem ordering_invariant:
  assumes "run ops boot_state = Some s"
  shows "distinct (devices_kset s) \<and> distinct (dpm_list s)
       \<and> links_ordered (devices_kset s) s \<and> children_ordered (devices_kset s) s
       \<and> links_ordered (dpm_list s) s \<and> children_ordered (dpm_list s) s
       \<and> (\<forall>link \<in> set (dlinks s). supplier link \<in> set (devices_kset s)
                                      \<and> supplier link \<in> set (dpm_list s))
       \<and> (\<forall>link \<in> set (dlinks s).
             (consumer link \<in> set (devices_kset s) \<longrightarrow>
                rank (devices_kset s) (supplier link) < rank (devices_kset s) (consumer link))
             \<and> (consumer link \<in> set (dpm_list s) \<longrightarrow>
                rank (dpm_list s) (supplier link) < rank (dpm_list s) (consumer link)))
       \<and> (\<forall>d cs c. klist_children (devs s d) = Some cs \<longrightarrow> c \<in> set cs \<longrightarrow>
             d \<in> set (devices_kset s) \<and> c \<in> set (devices_kset s)
             \<and> rank (devices_kset s) d < rank (devices_kset s) c
             \<and> d \<in> set (dpm_list s) \<and> c \<in> set (dpm_list s)
             \<and> rank (dpm_list s) d < rank (dpm_list s) c)"
proof -
  have inv: "graph_inv s" by (rule graph_inv_run[OF graph_inv_boot assms])
  let ?L = "dpm_list s"
  from inv have eq: "devices_kset s = ?L" and dist: "distinct ?L"
    and lo: "links_ordered ?L s" and co: "children_ordered ?L s"
    and sup: "\<forall>link \<in> set (dlinks s). supplier link \<in> set ?L"
    by (simp_all add: graph_inv_def)
  have lr: "\<forall>link \<in> set (dlinks s). consumer link \<in> set ?L \<longrightarrow>
              rank ?L (supplier link) < rank ?L (consumer link)"
    using lo dist by (auto simp: links_ordered_def intro: precedes_rank)
  have cr: "\<forall>d cs c. klist_children (devs s d) = Some cs \<longrightarrow> c \<in> set cs \<longrightarrow>
              d \<in> set ?L \<and> c \<in> set ?L \<and> rank ?L d < rank ?L c"
  proof (intro allI impI)
    fix d cs c assume "klist_children (devs s d) = Some cs" "c \<in> set cs"
    with co have p: "precedes ?L d c" by (auto simp: children_ordered_def)
    from precedes_mem[OF p] precedes_rank[OF dist p]
    show "d \<in> set ?L \<and> c \<in> set ?L \<and> rank ?L d < rank ?L c" by simp
  qed
  from dist lo co sup lr cr show ?thesis unfolding eq by blast
qed

theorem ordering_invariant_witness:
  "\<exists>s. run (ex_ops @ [AddLink lenv_ok 10 12 0]) boot_state = Some s
       \<and> devices_kset s = [12, 10, 11] \<and> dpm_list s = [12, 10, 11]
       \<and> map (\<lambda>l. (supplier l, consumer l)) (dlinks s) = [(12, 10)]
       \<and> klist_children (devs s 10) = Some [11]
       \<and> distinct (devices_kset s) \<and> distinct (dpm_list s)
       \<and> links_ordered (devices_kset s) s \<and> children_ordered (devices_kset s) s
       \<and> links_ordered (dpm_list s) s \<and> children_ordered (dpm_list s) s
       \<and> rank (devices_kset s) 12 < rank (devices_kset s) 10
       \<and> rank (devices_kset s) 10 < rank (devices_kset s) 11
       \<and> rank (dpm_list s) 12 < rank (dpm_list s) 10
       \<and> rank (dpm_list s) 10 < rank (dpm_list s) 11"
proof -
  from ex_run_link obtain s where
    s: "run (ex_ops @ [AddLink lenv_ok 10 12 0]) boot_state = Some s"
    "devices_kset s = [12, 10, 11]" "dpm_list s = [12, 10, 11]"
    "map (\<lambda>l. (supplier l, consumer l)) (dlinks s) = [(12, 10)]"
    "klist_children (devs s 10) = Some [11]"
    by auto
  from s(4) obtain link where l: "link \<in> set (dlinks s)" "supplier link = 12" "consumer link = 10"
    by auto
  note o = ordering_invariant [OF s(1)]
  from o l s(2,3) have r1: "rank (devices_kset s) 12 < rank (devices_kset s) 10"
    "rank (dpm_list s) 12 < rank (dpm_list s) 10"
    by auto
  from o s(5) have r2: "rank (devices_kset s) 10 < rank (devices_kset s) 11"
    "rank (dpm_list s) 10 < rank (dpm_list s) 11"
    by auto
  from o have rest: "distinct (devices_kset s) \<and> distinct (dpm_list s)
       \<and> links_ordered (devices_kset s) s \<and> children_ordered (devices_kset s) s
       \<and> links_ordered (dpm_list s) s \<and> children_ordered (dpm_list s) s"
    by simp
  from s r1 r2 rest show ?thesis by (intro exI[of _ s]) simp
qed


text \<open>
  C2.  In every state that successful registrations and link additions lead to, the
  relation "consumer of" and "child of" is acyclic, and every call of \<^verbatim>\<open>device_link_add\<close>
  returns.  A call that would close a cycle, that is one whose new edge from consumer to
  supplier makes the relation cyclic, has \<^verbatim>\<open>device_is_dependent(consumer, supplier)\<close> equal
  to 1: it fails and returns the state it was called in, links, children and both ordering
  lists included, and it fails on the branch of the dependency check unless the flags are
  invalid or the supplier is not on \<open>dpm_list\<close>, which are tested first.
\<close>

theorem dependency_acyclic:
  assumes "run ops boot_state = Some s"
  shows "acyclic (depends_on s)
    \<and> (\<forall>env ca sa fl. \<exists>r. device_link_add env ca sa fl s = Some r)
    \<and> (\<forall>env c sp fl. \<not> acyclic (insert (c, sp) (depends_on s)) \<longrightarrow>
          device_is_dependent s c sp = Some 1
          \<and> (\<exists>e. device_link_add env (Some c) (Some sp) fl s = Some (Inl e, s))
          \<and> (\<not> (fl AND DL_FLAG_STATELESS \<noteq> 0 \<and> fl AND DL_FLAG_AUTOREMOVE \<noteq> 0)
               \<and> device_pm_initialized s sp \<longrightarrow>
               device_link_add env (Some c) (Some sp) fl s = Some (Inl DependencyCycle, s)))"
proof -
  have inv: "graph_inv s" by (rule graph_inv_run[OF graph_inv_boot assms])
  have wf: "wf (depends_on s)" by (rule graph_inv_wf[OF inv])
  then have ac: "acyclic (depends_on s)" by (rule wf_acyclic)
  have cyc: "\<And>env c sp fl. \<not> acyclic (insert (c, sp) (depends_on s)) \<Longrightarrow>
          device_is_dependent s c sp = Some 1
          \<and> (\<exists>e. device_link_add env (Some c) (Some sp) fl s = Some (Inl e, s))
          \<and> (\<not> (fl AND DL_FLAG_STATELESS \<noteq> 0 \<and> fl AND DL_FLAG_AUTOREMOVE \<noteq> 0)
               \<and> device_pm_initialized s sp \<longrightarrow>
               device_link_add env (Some c) (Some sp) fl s = Some (Inl DependencyCycle, s))"
  proof -
    fix env :: link_env and c sp :: dev and fl :: "32 word"
    assume "\<not> acyclic (insert (c, sp) (depends_on s))"
    with ac have "(sp, c) \<in> (depends_on s)\<^sup>*" by (simp add: acyclic_insert)
    with is_dependent_value[OF wf, of c sp] have d: "device_is_dependent s c sp = Some 1" by simp
    then show "device_is_dependent s c sp = Some 1
          \<and> (\<exists>e. device_link_add env (Some c) (Some sp) fl s = Some (Inl e, s))
          \<and> (\<not> (fl AND DL_FLAG_STATELESS \<noteq> 0 \<and> fl AND DL_FLAG_AUTOREMOVE \<noteq> 0)
               \<and> device_pm_initialized s sp \<longrightarrow>
               device_link_add env (Some c) (Some sp) fl s = Some (Inl DependencyCycle, s))"
      by (simp add: device_link_add_def)
  qed
  from ac link_add_returns[OF inv] cyc show ?thesis by blast
qed

theorem dependency_acyclic_witness:
  "\<exists>s. run (ex_ops @ [AddLink lenv_ok 10 12 0]) boot_state = Some s
       \<and> acyclic (depends_on s) \<and> \<not> acyclic (insert (12, 11) (depends_on s))
       \<and> device_is_dependent s 12 11 = Some 1
       \<and> device_link_add lenv_ok (Some 12) (Some 11) 0 s = Some (Inl DependencyCycle, s)"
proof -
  from ex_run_link obtain s where
    s: "run (ex_ops @ [AddLink lenv_ok 10 12 0]) boot_state = Some s"
    "devices_kset s = [12, 10, 11]" "dpm_list s = [12, 10, 11]"
    "map (\<lambda>l. (supplier l, consumer l)) (dlinks s) = [(12, 10)]"
    "klist_children (devs s 10) = Some [11]"
    by auto
  from s(4) obtain link where "dlinks s = [link]" "supplier link = 12" "consumer link = 10"
    by auto
  then have e1: "(10, 12) \<in> depends_on s" by (auto simp: depends_on_def)
  from s(5) have e2: "(11, 10) \<in> depends_on s" by (auto simp: depends_on_def)
  from e1 e2 have path: "(11, 12) \<in> (depends_on s)\<^sup>*" by auto
  note d = dependency_acyclic [OF s(1)]
  from d have ac: "acyclic (depends_on s)" by simp
  with path have cyc: "\<not> acyclic (insert (12, 11) (depends_on s))" by (simp add: acyclic_insert)
  from d cyc have "device_is_dependent s 12 11 = Some 1
      \<and> (\<not> ((0::32 word) AND DL_FLAG_STATELESS \<noteq> 0 \<and> (0::32 word) AND DL_FLAG_AUTOREMOVE \<noteq> 0)
            \<and> device_pm_initialized s 11 \<longrightarrow>
          device_link_add lenv_ok (Some 12) (Some 11) 0 s = Some (Inl DependencyCycle, s))"
    by blast
  with s(3) have "device_is_dependent s 12 11 = Some 1
      \<and> device_link_add lenv_ok (Some 12) (Some 11) 0 s = Some (Inl DependencyCycle, s)"
    by (simp add: device_pm_initialized_def)
  with s(1) ac cyc show ?thesis by (intro exI[of _ s]) simp
qed

text \<open>
  C8.  In a state that successful registrations and link additions lead to, let
  \<^verbatim>\<open>device_link_add(consumer, supplier, flags)\<close> succeed.  Then a second call for the same
  two devices, with any flags that are not both STATELESS and AUTOREMOVE, returns the same
  link and leaves the state unchanged, and the state holds exactly one link between the
  two devices.
\<close>

theorem relink_idempotent:
  assumes run: "run ops boot_state = Some s"
    and first: "device_link_add env (Some c) (Some sp) fl s = Some (Inr a, s1)"
    and fl2: "\<not> (fl2 AND DL_FLAG_STATELESS \<noteq> 0 \<and> fl2 AND DL_FLAG_AUTOREMOVE \<noteq> 0)"
  shows "device_link_add env2 (Some c) (Some sp) fl2 s1 = Some (Inr a, s1)
       \<and> (\<exists>link. filter (\<lambda>l. consumer l = c \<and> supplier l = sp) (dlinks s1) = [link]
                  \<and> addr link = a)"
proof -
  have inv: "graph_inv s" by (rule graph_inv_run[OF graph_inv_boot run])
  have inv1: "graph_inv s1" by (rule graph_inv_add_link[OF inv first])
  have wf1: "wf (depends_on s1)" by (rule graph_inv_wf[OF inv1])
  have "\<exists>link \<in> set (dlinks s1). consumer link = c \<and> supplier link = sp \<and> addr link = a"
  proof (cases "\<exists>link \<in> set (dlinks s). consumer link = c \<and> supplier link = sp")
    case True
    from device_link_add_existing[OF first True] show ?thesis by auto
  next
    case False
    from device_link_add_new[OF first False] obtain s2 where
      r: "device_reorder_to_tail (get_device (Some c) (get_device (Some sp) s)) c = Some s2"
      and s1: "s1 = s2\<lparr>dlinks := dlinks s2 @ [new_link c sp fl s], next_link := Suc (next_link s2)\<rparr>"
      and a: "a = next_link s" by blast
    then show ?thesis by (simp add: new_link_def)
  qed
  then obtain link where link: "link \<in> set (dlinks s1)" "consumer link = c" "supplier link = sp"
    "addr link = a" by blast
  from inv1 have "distinct (map (\<lambda>l. (consumer l, supplier l)) (dlinks s1))"
    by (simp add: graph_inv_def)
  from distinct_map_filter_single[OF this link(1)] link
  have single: "filter (\<lambda>l. consumer l = c \<and> supplier l = sp) (dlinks s1) = [link]"
    by (simp add: conj_commute)
  have "filter (\<lambda>l. consumer l = c) (links_consumers s1 sp)
          = filter (\<lambda>l. consumer l = c \<and> supplier l = sp) (dlinks s1)"
    by (simp add: links_consumers_def conj_commute)
  with single have f: "find (\<lambda>l. consumer l = c) (links_consumers s1 sp) = Some link"
    by (simp add: find_filter_head)
  from link have "(c, sp) \<in> depends_on s1" by (auto simp: depends_on_def)
  from wf_no_back[OF wf1 this] is_dependent_value[OF wf1, of c sp]
  have dep: "device_is_dependent s1 c sp = Some 0" by simp
  from inv1 link have "sp \<in> set (dpm_list s1)" by (auto simp: graph_inv_def)
  with dep f fl2 link(4) have "device_link_add env2 (Some c) (Some sp) fl2 s1 = Some (Inr a, s1)"
    by (simp add: device_link_add_def device_pm_initialized_def)
  with single link(4) show ?thesis by blast
qed

theorem relink_idempotent_witness:
  "\<exists>s a s1. run ex_ops boot_state = Some s
     \<and> device_link_add lenv_ok (Some 10) (Some 12) 0 s = Some (Inr a, s1)
     \<and> \<not> (DL_FLAG_PM_RUNTIME AND DL_FLAG_STATELESS \<noteq> 0
            \<and> DL_FLAG_PM_RUNTIME AND DL_FLAG_AUTOREMOVE \<noteq> 0)
     \<and> device_link_add lenv_ok (Some 10) (Some 12) DL_FLAG_PM_RUNTIME s1 = Some (Inr a, s1)
     \<and> length (dlinks s1) = 1"
proof -
  from ex_run obtain s where s: "run ex_ops boot_state = Some s" "ex_shape s" by blast
  from ex_link_add[OF s(2)] obtain a s1 where
    first: "device_link_add lenv_ok (Some 10) (Some 12) 0 s = Some (Inr a, s1)"
    and one: "map (\<lambda>l. (supplier l, consumer l)) (dlinks s1) = [(12, 10)]"
    by auto
  have fl: "\<not> (DL_FLAG_PM_RUNTIME AND DL_FLAG_STATELESS \<noteq> 0
            \<and> DL_FLAG_PM_RUNTIME AND DL_FLAG_AUTOREMOVE \<noteq> 0)"
    by (simp add: DL_FLAG_PM_RUNTIME_def DL_FLAG_STATELESS_def)
  from one have len: "length (dlinks s1) = 1" by auto
  from relink_idempotent [OF s(1) first fl, of lenv_ok] s(1) first fl len
  show ?thesis by (intro exI[of _ s] exI[of _ a] exI[of _ s1]) simp
qed

end
